theory Spec2Isabelle
  imports Main "HOL-Library.Word" "HOL-Library.Multiset"
begin

section \<open>Embedded circular doubly linked lists (elst2.cpp)\<close>

text \<open>
  The store. An \<open>ELIST2_LINK\<close> is a pair of pointers; a pointer is an address or
  \<open>nullptr\<close> (\<open>None\<close>). An \<open>ELIST2\<close> object holds the single pointer \<open>last\<close>; the
  store keeps the \<open>last\<close> field of every list object under the object's identity,
  because two iterators may refer to the same list or to two different ones. The
  component \<open>world\<close> is whatever a caller-supplied callback (the zapper of
  \<open>internal_clear\<close>) acts on besides the lists.

  The model is the build with the checks enabled (\<open>NDEBUG\<close> not defined). Every
  \<open>ERRCODE::error(..., ABORT, ...)\<close> is an error value; dereferencing \<open>nullptr\<close>,
  which C++ leaves undefined, is the error \<open>NULL_DEREF\<close>.

  The fields \<open>list\<close>, \<open>prev\<close> and \<open>next\<close> of an iterator are \<open>it_list\<close>, \<open>it_prev\<close> and
  \<open>it_next\<close> here, \<open>prev\<close> and \<open>next\<close> being the fields of a link. \<open>ELIST2::length\<close> and
  \<open>ELIST2::sort\<close> are \<open>length_list\<close> and \<open>sort_list\<close>, and \<open>ELIST2::empty\<close> is
  \<open>list_empty\<close>, the short names being those of HOL's list functions.
\<close>

type_synonym addr = nat
type_synonym lid = nat

record link =
  prev :: "addr option"
  "next" :: "addr option"

record 'w state =
  links :: "addr \<Rightarrow> link"
  last_of :: "lid \<Rightarrow> addr option"
  world :: 'w

record ELIST2_ITERATOR =
  it_list :: "lid option"
  it_prev :: "addr option"
  current :: "addr option"
  it_next :: "addr option"
  cycle_pt :: "addr option"
  ex_current_was_last :: bool
  ex_current_was_cycle_pt :: bool
  started_cycling :: bool

datatype error =
    NO_LIST | EMPTY_LIST | NULL_DATA | NULL_NEXT
  | DONT_EXCHANGE_DELETED | BAD_SUBLIST | BAD_EXTRACTION_PTS | DONT_EXTRACT_DELETED
  | LIST_NOT_EMPTY | DELETED_ELEMENT | NULL_DEREF | INT_OVERFLOW | OUT_OF_BOUNDS

text \<open>
  Pointer assignments \<open>p->next = v\<close> and \<open>p->prev = v\<close>, executed in the order of the
  source. The pointer \<open>p\<close> is the value of an iterator field and may be null.
\<close>

datatype field = Next | Prev

fun store :: "(addr \<Rightarrow> link) \<Rightarrow> (field \<times> addr option \<times> addr option) list \<Rightarrow> (addr \<Rightarrow> link) option" where
  "store h [] = Some h"
| "store h ((f, None, v) # ws) = None"
| "store h ((Next, Some a, v) # ws) = store (h(a := (h a)\<lparr>next := v\<rparr>)) ws"
| "store h ((Prev, Some a, v) # ws) = store (h(a := (h a)\<lparr>prev := v\<rparr>)) ws"

subsection \<open>Members declared in elst2.h\<close>

text \<open>
  Modelled from the spec: \<open>ELIST2::empty\<close>, declared in elst2.h, which is not among
  the sources. "\<open>is_empty() -> bool\<close>: true iff \<open>last\<close> is unset."
\<close>

definition list_empty :: "lid \<Rightarrow> 'w state \<Rightarrow> bool" where
  "list_empty l s = (last_of s l = None)"

text \<open>
  Modelled from the spec: the constructor \<open>ELIST2_ITERATOR(ELIST2 *)\<close> of elst2.h, the
  private cursor that \<open>length\<close>, \<open>sort\<close> and \<open>add_sorted\<close> instantiate. The cursor is
  bound to the list and starts on the logical head \<open>last->next\<close>, with \<open>prev\<close> and
  \<open>next\<close> the siblings of that node, no cycle marker and all flags cleared.
\<close>

definition set_to_list :: "lid \<Rightarrow> 'w state \<Rightarrow> ELIST2_ITERATOR" where
  "set_to_list l s =
    (let first = (case last_of s l of None \<Rightarrow> None | Some t \<Rightarrow> next (links s t))
     in \<lparr>it_list = Some l, it_prev = last_of s l, current = first,
         it_next = (case first of None \<Rightarrow> None | Some c \<Rightarrow> next (links s c)),
         cycle_pt = None, ex_current_was_last = False, ex_current_was_cycle_pt = False,
         started_cycling = False\<rparr>)"

text \<open>
  Modelled from the spec: \<open>ELIST2_ITERATOR::mark_cycle_pt\<close> of elst2.h. It "sets
  \<open>cycle_pt\<close> to the current position (or, if none, arranges for the next \<open>forward()\<close>
  to set it) and clears \<open>started_cycling\<close>"; \<open>forward\<close> adopts its \<open>next\<close> as the cycle
  marker when \<open>ex_current_was_cycle_pt\<close> is set.
\<close>

definition mark_cycle_pt :: "ELIST2_ITERATOR \<Rightarrow> ELIST2_ITERATOR" where
  "mark_cycle_pt it =
    (case current it of
       Some c \<Rightarrow> it\<lparr>cycle_pt := Some c\<rparr>
     | None \<Rightarrow> it\<lparr>ex_current_was_cycle_pt := True\<rparr>)\<lparr>started_cycling := False\<rparr>"

text \<open>
  Modelled from the spec: \<open>ELIST2_ITERATOR::cycled_list\<close> of elst2.h. It is "true once
  traversal has advanced past \<open>cycle_pt\<close> a full lap; guarded by \<open>started_cycling\<close> so the
  very first position is never mistaken for already cycled". A traversal of an empty list
  has cycled at once (\<open>length() == 0\<close> there). A cursor with no bound list is the error
  \<open>NoBoundList\<close>.
\<close>

definition cycled_list :: "ELIST2_ITERATOR \<Rightarrow> 'w state \<Rightarrow> error + bool" where
  "cycled_list it s =
    (case it_list it of
       None \<Rightarrow> Inl NO_LIST
     | Some l \<Rightarrow> Inr (list_empty l s \<or> (current it = cycle_pt it \<and> started_cycling it)))"

text \<open>
  Modelled from the spec: \<open>ELIST2_ITERATOR::at_last\<close> of elst2.h, by which
  \<open>extract_sublist\<close> records for each visited node "whether it was the source list's
  tail": the current node is \<open>last\<close>, or the cursor stands on the gap left by the removal
  of the former tail. On an empty list every cursor is at the last position.
\<close>

definition at_last :: "ELIST2_ITERATOR \<Rightarrow> 'w state \<Rightarrow> error + bool" where
  "at_last it s =
    (case it_list it of
       None \<Rightarrow> Inl NO_LIST
     | Some l \<Rightarrow>
        Inr (list_empty l s \<or> current it = last_of s l \<or>
             (current it = None \<and> it_prev it = last_of s l \<and> ex_current_was_last it)))"

text \<open>
  Modelled from the spec: \<open>ELIST2_ITERATOR::data\<close> of elst2.h, the node the cursor is
  on; "dereferencing a cursor whose \<open>current\<close> is unset" is \<open>DeletedElementAccess\<close>.
\<close>

definition data :: "ELIST2_ITERATOR \<Rightarrow> error + addr" where
  "data it =
    (case it_list it of
       None \<Rightarrow> Inl NO_LIST
     | Some l \<Rightarrow> (case current it of None \<Rightarrow> Inl DELETED_ELEMENT | Some c \<Rightarrow> Inr c))"

text \<open>
  Modelled from the spec: \<open>ELIST2_ITERATOR::extract\<close> of elst2.h (\<open>extract_link\<close>
  here, the name being taken in Isabelle). It "detaches
  \<open>current\<close> from the chain (fixing neighbors' cross-links and the List's \<open>last\<close> if the
  removed node was the tail), leaves \<open>current\<close> unset with \<open>prev\<close>/\<open>next\<close> retained for
  the next move, and returns the detached node (now a self-contained unattached Link)";
  it is "fatal if \<open>current\<close> is already unset". The flags record "whether the element last
  exited was the List's tail or the cursor's own cycle marker". Removing the only node
  leaves the list empty, and then the cursor retains no sibling.
\<close>

definition extract_link :: "ELIST2_ITERATOR \<Rightarrow> 'w state \<Rightarrow> error + (addr \<times> ELIST2_ITERATOR \<times> 'w state)" where
  "extract_link it s =
    (case it_list it of
       None \<Rightarrow> Inl NO_LIST
     | Some l \<Rightarrow>
    (case current it of
       None \<Rightarrow> Inl DELETED_ELEMENT
     | Some c \<Rightarrow>
        let unlinked =
             (if (case last_of s l of None \<Rightarrow> False | Some t \<Rightarrow> next (links s t) = Some t)
              then Some (it\<lparr>it_prev := None, it_next := None\<rparr>, links s, (last_of s)(l := None))
              else
                map_option
                  (\<lambda>h. if current it = last_of s l
                       then (it\<lparr>ex_current_was_last := True\<rparr>, h, (last_of s)(l := it_prev it))
                       else (it\<lparr>ex_current_was_last := False\<rparr>, h, last_of s))
                  (store (links s) [(Next, it_prev it, it_next it), (Prev, it_next it, it_prev it)]))
        in (case unlinked of
              None \<Rightarrow> Inl NULL_DEREF
            | Some (it1, h, lasts) \<Rightarrow>
               Inr (c,
                    it1\<lparr>ex_current_was_cycle_pt := (current it = cycle_pt it), current := None\<rparr>,
                    s\<lparr>links := h(c := \<lparr>prev = None, next = None\<rparr>), last_of := lasts\<rparr>))))"

text \<open>
  Modelled from the spec: \<open>ELIST2_ITERATOR::add_before_then_move\<close> of elst2.h. It
  inserts the node "adjacent to current" on the \<open>prev\<close> side "and moves current onto it".
  On an empty list the node becomes the whole chain. When \<open>current\<close> is unset the node
  fills the gap between the retained \<open>prev\<close> and \<open>next\<close> and takes over the roles of
  tail and cycle marker that the flags recorded for the removed node.
\<close>

definition add_before_then_move ::
  "ELIST2_ITERATOR \<Rightarrow> addr \<Rightarrow> 'w state \<Rightarrow> error + (ELIST2_ITERATOR \<times> 'w state)" where
  "add_before_then_move it new_element s =
    (case it_list it of
       None \<Rightarrow> Inl NO_LIST
     | Some l \<Rightarrow>
        if list_empty l s then
          Inr (it\<lparr>it_prev := Some new_element, it_next := Some new_element, current := Some new_element\<rparr>,
               s\<lparr>links := (links s)(new_element := \<lparr>prev = Some new_element, next = Some new_element\<rparr>),
                 last_of := (last_of s)(l := Some new_element)\<rparr>)
        else
          (case current it of
             Some c \<Rightarrow>
              (case store (links s)
                      [(Next, it_prev it, Some new_element), (Prev, Some new_element, it_prev it),
                       (Next, Some new_element, Some c), (Prev, Some c, Some new_element)] of
                 None \<Rightarrow> Inl NULL_DEREF
               | Some h \<Rightarrow> Inr (it\<lparr>it_next := Some c, current := Some new_element\<rparr>, s\<lparr>links := h\<rparr>))
           | None \<Rightarrow>
              (case store (links s)
                      [(Next, it_prev it, Some new_element), (Prev, Some new_element, it_prev it),
                       (Next, Some new_element, it_next it), (Prev, it_next it, Some new_element)] of
                 None \<Rightarrow> Inl NULL_DEREF
               | Some h \<Rightarrow>
                  Inr (it\<lparr>cycle_pt := (if ex_current_was_cycle_pt it then Some new_element else cycle_pt it),
                          current := Some new_element\<rparr>,
                       s\<lparr>links := h,
                         last_of := (if ex_current_was_last it then (last_of s)(l := Some new_element)
                                     else last_of s)\<rparr>))))"

text \<open>
  Modelled from the spec: \<open>ELIST2_ITERATOR::add_to_end\<close> of elst2.h. It inserts the
  node "at the tail" and "moves current onto it": the node is linked between the old
  \<open>last\<close> and the head and becomes \<open>last\<close>; on an empty list it becomes the whole chain.
\<close>

definition add_to_end ::
  "ELIST2_ITERATOR \<Rightarrow> addr \<Rightarrow> 'w state \<Rightarrow> error + (ELIST2_ITERATOR \<times> 'w state)" where
  "add_to_end it new_element s =
    (case it_list it of
       None \<Rightarrow> Inl NO_LIST
     | Some l \<Rightarrow>
        (case last_of s l of
           None \<Rightarrow>
            Inr (it\<lparr>it_prev := Some new_element, it_next := Some new_element, current := Some new_element\<rparr>,
                 s\<lparr>links := (links s)(new_element := \<lparr>prev = Some new_element, next = Some new_element\<rparr>),
                   last_of := (last_of s)(l := Some new_element)\<rparr>)
         | Some t \<Rightarrow>
            let first = next (links s t)
            in (case store (links s)
                       [(Next, Some new_element, first), (Prev, Some new_element, Some t),
                        (Prev, first, Some new_element), (Next, Some t, Some new_element)] of
                  None \<Rightarrow> Inl NULL_DEREF
                | Some h \<Rightarrow>
                   Inr (it\<lparr>it_prev := Some t, it_next := first, current := Some new_element\<rparr>,
                        s\<lparr>links := h, last_of := (last_of s)(l := Some new_element)\<rparr>))))"

subsection \<open>ELIST2_ITERATOR::forward\<close>

definition forward :: "ELIST2_ITERATOR \<Rightarrow> 'w state \<Rightarrow> error + (addr option \<times> ELIST2_ITERATOR)" where
  "forward it s =
    (case it_list it of
       None \<Rightarrow> Inl NO_LIST
     | Some l \<Rightarrow>
        if list_empty l s then Inr (None, it)
        else
          let it1 = (case current it of
                       Some c \<Rightarrow> it\<lparr>it_prev := Some c, started_cycling := True,
                                    current := next (links s c)\<rparr>
                     | None \<Rightarrow> (if ex_current_was_cycle_pt it then it\<lparr>cycle_pt := it_next it\<rparr> else it)
                                 \<lparr>current := it_next it\<rparr>)
          in (case current it1 of
                None \<Rightarrow> Inl NULL_DATA
              | Some c \<Rightarrow>
                 let it2 = it1\<lparr>it_next := next (links s c)\<rparr>
                 in if it_next it2 = None then Inl NULL_NEXT else Inr (Some c, it2)))"

subsection \<open>ELIST2_ITERATOR::data_relative\<close>

text \<open>
  The two loops of \<open>data_relative\<close>: \<open>n\<close> steps along \<open>prev\<close> or along \<open>next\<close>. The
  offset is an \<open>int8_t\<close>; \<open>offset++ < 0\<close> holds \<open>-offset\<close> times and
  \<open>offset-- > 0\<close> holds \<open>offset\<close> times, and neither counter leaves the range of the
  type.
\<close>

fun walk_prev :: "(addr \<Rightarrow> link) \<Rightarrow> nat \<Rightarrow> addr option \<Rightarrow> error + addr option" where
  "walk_prev h 0 p = Inr p"
| "walk_prev h (Suc n) p = (case p of None \<Rightarrow> Inl NULL_DEREF | Some a \<Rightarrow> walk_prev h n (prev (h a)))"

fun walk_next :: "(addr \<Rightarrow> link) \<Rightarrow> nat \<Rightarrow> addr option \<Rightarrow> error + addr option" where
  "walk_next h 0 p = Inr p"
| "walk_next h (Suc n) p = (case p of None \<Rightarrow> Inl NULL_DEREF | Some a \<Rightarrow> walk_next h n (next (h a)))"

definition data_relative :: "ELIST2_ITERATOR \<Rightarrow> 8 word \<Rightarrow> 'w state \<Rightarrow> error + addr" where
  "data_relative it offset s =
    (case it_list it of
       None \<Rightarrow> Inl NO_LIST
     | Some l \<Rightarrow>
        if list_empty l s then Inl EMPTY_LIST
        else
          (case (if sint offset < 0
                 then walk_prev (links s) (nat (- sint offset))
                        (case current it of Some c \<Rightarrow> Some c | None \<Rightarrow> it_next it)
                 else walk_next (links s) (nat (sint offset))
                        (case current it of Some c \<Rightarrow> Some c | None \<Rightarrow> it_prev it)) of
             Inl e \<Rightarrow> Inl e
           | Inr None \<Rightarrow> Inl NULL_DATA
           | Inr (Some p) \<Rightarrow> Inr p))"

subsection \<open>ELIST2_ITERATOR::exchange\<close>

text \<open>
  The two iterators are passed and returned as values; \<open>other_it\<close> is therefore never
  null. When both arguments are the same iterator object the source returns at the
  first test (\<open>current == other_it->current\<close>), as the model does.
\<close>

definition exchange ::
  "ELIST2_ITERATOR \<Rightarrow> ELIST2_ITERATOR \<Rightarrow> 'w state \<Rightarrow> error + (ELIST2_ITERATOR \<times> ELIST2_ITERATOR \<times> 'w state)" where
  "exchange this other s =
    (case it_list this of
       None \<Rightarrow> Inl NO_LIST
     | Some l \<Rightarrow>
    (case it_list other of
       None \<Rightarrow> Inl NO_LIST
     | Some ol \<Rightarrow>
        if list_empty l s \<or> list_empty ol s \<or> current this = current other
        then Inr (this, other, s)
        else if current this = None \<or> current other = None then Inl DONT_EXCHANGE_DELETED
        else
          let c = current this; oc = current other;
              relinked =
               (if it_next this = oc \<or> it_next other = c then
                  (if it_next this = oc \<and> it_next other = c then
                     Some (this\<lparr>it_prev := c, it_next := c\<rparr>,
                           other\<lparr>it_prev := oc, it_next := oc\<rparr>, links s)
                   else if it_next other = c then
                     map_option (\<lambda>h. (this\<lparr>it_prev := c\<rparr>, other\<lparr>it_next := oc\<rparr>, h))
                       (store (links s)
                          [(Next, it_prev other, c), (Next, oc, it_next this), (Prev, oc, c),
                           (Next, c, oc), (Prev, c, it_prev other), (Prev, it_next this, oc)])
                   else
                     map_option (\<lambda>h. (this\<lparr>it_next := c\<rparr>, other\<lparr>it_prev := oc\<rparr>, h))
                       (store (links s)
                          [(Next, it_prev this, oc), (Next, c, it_next other), (Prev, c, oc),
                           (Next, oc, c), (Prev, oc, it_prev this), (Prev, it_next other, c)]))
                else
                  map_option (\<lambda>h. (this, other, h))
                    (store (links s)
                       [(Next, it_prev this, oc), (Next, c, it_next other), (Prev, c, it_prev other),
                        (Prev, it_next this, oc), (Next, it_prev other, c), (Next, oc, it_next this),
                        (Prev, oc, it_prev this), (Prev, it_next other, c)]))
          in (case relinked of
                None \<Rightarrow> Inl NULL_DEREF
              | Some (this1, other1, h) \<Rightarrow>
                 let lasts1 = (if last_of s l = c then (last_of s)(l := oc) else last_of s);
                     lasts2 = (if lasts1 ol = oc then lasts1(ol := c) else lasts1);
                     cp = (if c = cycle_pt this1 then cycle_pt other1 else cycle_pt this1);
                     ocp = (if oc = cycle_pt other1 then cp else cycle_pt other1)
                 in Inr (this1\<lparr>cycle_pt := cp, current := oc\<rparr>,
                         other1\<lparr>cycle_pt := ocp, current := c\<rparr>,
                         s\<lparr>links := h, last_of := lasts2\<rparr>))))"

subsection \<open>ELIST2::length\<close>

text \<open>
  The loop \<open>for (it.mark_cycle_pt(); !it.cycled_list(); it.forward()) count++\<close>. The
  counter \<open>cnt\<close> is an \<open>int32_t\<close>; incrementing it beyond \<open>2^31 - 1\<close> is undefined in C++ and
  is the error \<open>INT_OVERFLOW\<close> here. A walk that never cycles does not return.
\<close>

partial_function (option) length_loop ::
  "ELIST2_ITERATOR \<Rightarrow> 'w state \<Rightarrow> int \<Rightarrow> (error + int) option" where
  "length_loop it s cnt =
    (case cycled_list it s of
       Inl e \<Rightarrow> Some (Inl e)
     | Inr cycled \<Rightarrow>
        if cycled then Some (Inr cnt)
        else if cnt = 2 ^ 31 - 1 then Some (Inl INT_OVERFLOW)
        else (case forward it s of
                Inl e \<Rightarrow> Some (Inl e)
              | Inr (_, it') \<Rightarrow> length_loop it' s (cnt + 1)))"

definition length_list :: "lid \<Rightarrow> 'w state \<Rightarrow> (error + int) option" where
  "length_list l s = length_loop (mark_cycle_pt (set_to_list l s)) s 0"

subsection \<open>ELIST2::sort\<close>

text \<open>
  The C library's \<open>qsort\<close> over the array of node pointers. The comparator receives the
  addresses of two array slots and compares the nodes they hold, so it is a function of
  the two nodes. The library fixes no algorithm and no order among elements that compare
  equal; the model is insertion sort.
\<close>

fun qsort_insert :: "(addr \<Rightarrow> addr \<Rightarrow> int) \<Rightarrow> addr \<Rightarrow> addr list \<Rightarrow> addr list" where
  "qsort_insert comparator x [] = [x]"
| "qsort_insert comparator x (y # ys) =
    (if comparator x y \<le> 0 then x # y # ys else y # qsort_insert comparator x ys)"

definition qsort :: "(addr \<Rightarrow> addr \<Rightarrow> int) \<Rightarrow> addr list \<Rightarrow> addr list" where
  "qsort comparator base = foldr (qsort_insert comparator) base []"

text \<open>
  The extraction loop. \<open>base\<close> is the part of the array written so far; the array has
  \<open>cnt\<close> slots (the \<open>count\<close> of the source), and a write beyond them is the error \<open>OUT_OF_BOUNDS\<close>.
\<close>

partial_function (option) sort_extract ::
  "nat \<Rightarrow> ELIST2_ITERATOR \<Rightarrow> 'w state \<Rightarrow> addr list \<Rightarrow> (error + (ELIST2_ITERATOR \<times> 'w state \<times> addr list)) option" where
  "sort_extract cnt it s base =
    (case cycled_list it s of
       Inl e \<Rightarrow> Some (Inl e)
     | Inr cycled \<Rightarrow>
        if cycled then Some (Inr (it, s, base))
        else (case extract_link it s of
                Inl e \<Rightarrow> Some (Inl e)
              | Inr (p, it1, s1) \<Rightarrow>
                 if cnt \<le> length base then Some (Inl OUT_OF_BOUNDS)
                 else (case forward it1 s1 of
                         Inl e \<Rightarrow> Some (Inl e)
                       | Inr (_, it2) \<Rightarrow> sort_extract cnt it2 s1 (base @ [p]))))"

text \<open>
  The rebuilding loop \<open>for (i = 0; i < count; i++) it.add_to_end(*current)\<close>: the nodes
  of a sequence are appended one after the other through the same cursor.
\<close>

fun add_all_to_end ::
  "ELIST2_ITERATOR \<Rightarrow> 'w state \<Rightarrow> addr list \<Rightarrow> error + (ELIST2_ITERATOR \<times> 'w state)" where
  "add_all_to_end it s [] = Inr (it, s)"
| "add_all_to_end it s (p # ps) =
    (case add_to_end it p s of
       Inl e \<Rightarrow> Inl e
     | Inr (it', s') \<Rightarrow> add_all_to_end it' s' ps)"

text \<open>
  \<open>malloc\<close> is taken to succeed. A slot of the array that the extraction loop did not
  write is uninitialised; reading it is the error \<open>OUT_OF_BOUNDS\<close>.
\<close>

definition sort_list :: "(addr \<Rightarrow> addr \<Rightarrow> int) \<Rightarrow> lid \<Rightarrow> 'w state \<Rightarrow> (error + 'w state) option" where
  "sort_list comparator l s =
    (let it = set_to_list l s
     in case length_list l s of
          None \<Rightarrow> None
        | Some (Inl e) \<Rightarrow> Some (Inl e)
        | Some (Inr cnt) \<Rightarrow>
           (case sort_extract (nat cnt) (mark_cycle_pt it) s [] of
              None \<Rightarrow> None
            | Some (Inl e) \<Rightarrow> Some (Inl e)
            | Some (Inr (it1, s1, base)) \<Rightarrow>
               if length base < nat cnt then Some (Inl OUT_OF_BOUNDS)
               else (case add_all_to_end it1 s1 (qsort comparator base) of
                       Inl e \<Rightarrow> Some (Inl e)
                     | Inr (_, s2) \<Rightarrow> Some (Inr s2))))"

text \<open>
  \<open>ELIST2::sort\<close> once more, with two things in sight that \<open>sort_list\<close> leaves out: what
  \<open>malloc\<close> returned, and the calls of the comparator.

  \<open>allocated\<close> tells whether \<open>malloc\<close> returned a block; for a request of zero bytes the C
  library may return a null pointer or a block, and for any request it may fail. A null
  pointer has no slot, so the first store through it is an error, as a store beyond the
  block is. The only caller of the comparator in \<open>sort\<close> is \<open>qsort\<close>: \<open>qsort_traced\<close> is the
  sort of \<open>qsort\<close> together with the pairs of nodes it hands to the comparator, in the
  order of the calls. On an array of zero elements \<open>qsort\<close> reads no slot and has no pair
  to compare, whatever pointer it is given.
\<close>

fun qsort_insert_traced ::
  "(addr \<Rightarrow> addr \<Rightarrow> int) \<Rightarrow> addr \<Rightarrow> addr list \<Rightarrow> addr list \<times> (addr \<times> addr) list" where
  "qsort_insert_traced comparator x [] = ([x], [])"
| "qsort_insert_traced comparator x (y # ys) =
    (if comparator x y \<le> 0 then (x # y # ys, [(x, y)])
     else (case qsort_insert_traced comparator x ys of
             (zs, calls) \<Rightarrow> (y # zs, (x, y) # calls)))"

fun qsort_traced ::
  "(addr \<Rightarrow> addr \<Rightarrow> int) \<Rightarrow> addr list \<Rightarrow> addr list \<times> (addr \<times> addr) list" where
  "qsort_traced comparator [] = ([], [])"
| "qsort_traced comparator (x # xs) =
    (case qsort_traced comparator xs of
       (ys, calls) \<Rightarrow>
        (case qsort_insert_traced comparator x ys of
           (zs, calls') \<Rightarrow> (zs, calls @ calls')))"

definition sort_traced ::
  "bool \<Rightarrow> (addr \<Rightarrow> addr \<Rightarrow> int) \<Rightarrow> lid \<Rightarrow> 'w state \<Rightarrow>
     (error + ('w state \<times> (addr \<times> addr) list)) option" where
  "sort_traced allocated comparator l s =
    (let it = set_to_list l s
     in case length_list l s of
          None \<Rightarrow> None
        | Some (Inl e) \<Rightarrow> Some (Inl e)
        | Some (Inr cnt) \<Rightarrow>
           (case sort_extract (if allocated then nat cnt else 0) (mark_cycle_pt it) s [] of
              None \<Rightarrow> None
            | Some (Inl e) \<Rightarrow> Some (Inl e)
            | Some (Inr (it1, s1, base)) \<Rightarrow>
               if length base < nat cnt then Some (Inl OUT_OF_BOUNDS)
               else (case qsort_traced comparator base of
                       (ordered, calls) \<Rightarrow>
                        (case add_all_to_end it1 s1 ordered of
                           Inl e \<Rightarrow> Some (Inl e)
                         | Inr (_, s2) \<Rightarrow> Some (Inr (s2, calls))))))"

subsection \<open>ELIST2::add_sorted\<close>

text \<open>
  The scan \<open>for (it.mark_cycle_pt(); !it.cycled_list(); it.forward())\<close> that leaves at
  the first node strictly greater than the new one.
\<close>

partial_function (option) add_sorted_scan ::
  "(addr \<Rightarrow> addr \<Rightarrow> int) \<Rightarrow> addr \<Rightarrow> ELIST2_ITERATOR \<Rightarrow> 'w state \<Rightarrow> (error + ELIST2_ITERATOR) option" where
  "add_sorted_scan comparator new_link it s =
    (case cycled_list it s of
       Inl e \<Rightarrow> Some (Inl e)
     | Inr cycled \<Rightarrow>
        if cycled then Some (Inr it)
        else (case data it of
                Inl e \<Rightarrow> Some (Inl e)
              | Inr link \<Rightarrow>
                 if comparator link new_link > 0 then Some (Inr it)
                 else (case forward it s of
                         Inl e \<Rightarrow> Some (Inl e)
                       | Inr (_, it') \<Rightarrow> add_sorted_scan comparator new_link it' s)))"

definition add_sorted ::
  "(addr \<Rightarrow> addr \<Rightarrow> int) \<Rightarrow> lid \<Rightarrow> addr \<Rightarrow> 'w state \<Rightarrow> (error + 'w state) option" where
  "add_sorted comparator l new_link s =
    (case last_of s l of
       None \<Rightarrow>
        Some (Inr (s\<lparr>links := (links s)(new_link := \<lparr>prev = Some new_link, next = Some new_link\<rparr>),
                    last_of := (last_of s)(l := Some new_link)\<rparr>))
     | Some t \<Rightarrow>
        if comparator t new_link < 0 then
          (case store (links s)
                  [(Next, Some new_link, next (links s t)), (Prev, Some new_link, Some t),
                   (Next, Some t, Some new_link)] of
             None \<Rightarrow> Some (Inl NULL_DEREF)
           | Some h \<Rightarrow>
              (case store h [(Prev, next (h new_link), Some new_link)] of
                 None \<Rightarrow> Some (Inl NULL_DEREF)
               | Some h' \<Rightarrow> Some (Inr (s\<lparr>links := h', last_of := (last_of s)(l := Some new_link)\<rparr>))))
        else
          (case add_sorted_scan comparator new_link (mark_cycle_pt (set_to_list l s)) s of
             None \<Rightarrow> None
           | Some (Inl e) \<Rightarrow> Some (Inl e)
           | Some (Inr it) \<Rightarrow>
              (case cycled_list it s of
                 Inl e \<Rightarrow> Some (Inl e)
               | Inr cycled \<Rightarrow>
                  (case (if cycled then add_to_end it new_link s
                         else add_before_then_move it new_link s) of
                     Inl e \<Rightarrow> Some (Inl e)
                   | Inr (_, s') \<Rightarrow> Some (Inr s')))))"

subsection \<open>ELIST2_ITERATOR::extract_sublist and ELIST2::assign_to_sublist\<close>

text \<open>
  The \<open>do ... while (temp_it.prev != other_it->current)\<close> walk over the sublist with the
  copy \<open>temp_it\<close> of this iterator. It writes the flags of both iterators and the \<open>last\<close>
  of their list. As in \<open>exchange\<close>, the two iterators are values and \<open>other_it\<close> is never
  null.
\<close>

partial_function (option) sublist_walk ::
  "lid \<Rightarrow> ELIST2_ITERATOR \<Rightarrow> ELIST2_ITERATOR \<Rightarrow> ELIST2_ITERATOR \<Rightarrow> 'w state \<Rightarrow>
     (error + (ELIST2_ITERATOR \<times> ELIST2_ITERATOR \<times> 'w state)) option" where
  "sublist_walk l this other temp_it s =
    (case cycled_list temp_it s of
       Inl e \<Rightarrow> Some (Inl e)
     | Inr cycled \<Rightarrow>
        if cycled then Some (Inl BAD_SUBLIST)
        else (case at_last temp_it s of
                Inl e \<Rightarrow> Some (Inl e)
              | Inr tail \<Rightarrow>
                 let s1 = (if tail then s\<lparr>last_of := (last_of s)(l := it_prev this)\<rparr> else s);
                     this1 = (if tail then this\<lparr>ex_current_was_last := True\<rparr> else this);
                     other1 = (if tail then other\<lparr>ex_current_was_last := True\<rparr> else other);
                     this2 = (if current temp_it = cycle_pt this1
                              then this1\<lparr>ex_current_was_cycle_pt := True\<rparr> else this1);
                     other2 = (if current temp_it = cycle_pt other1
                               then other1\<lparr>ex_current_was_cycle_pt := True\<rparr> else other1)
                 in (case forward temp_it s1 of
                       Inl e \<Rightarrow> Some (Inl e)
                     | Inr (_, temp_it') \<Rightarrow>
                        if it_prev temp_it' \<noteq> current other2
                        then sublist_walk l this2 other2 temp_it' s1
                        else Some (Inr (this2, other2, s1)))))"

definition extract_sublist ::
  "ELIST2_ITERATOR \<Rightarrow> ELIST2_ITERATOR \<Rightarrow> 'w state \<Rightarrow>
     (error + (addr \<times> ELIST2_ITERATOR \<times> ELIST2_ITERATOR \<times> 'w state)) option" where
  "extract_sublist this other s =
    (case it_list this of
       None \<Rightarrow> Some (Inl NO_LIST)
     | Some l \<Rightarrow>
        if it_list other \<noteq> Some l then Some (Inl BAD_EXTRACTION_PTS)
        else if list_empty l s then Some (Inl EMPTY_LIST)
        else
          (case (current this, current other) of
             (Some c, Some oc) \<Rightarrow>
              (case sublist_walk l
                      (this\<lparr>ex_current_was_last := False, ex_current_was_cycle_pt := False\<rparr>)
                      (other\<lparr>ex_current_was_last := False, ex_current_was_cycle_pt := False\<rparr>)
                      (mark_cycle_pt this) s of
                 None \<Rightarrow> None
               | Some (Inl e) \<Rightarrow> Some (Inl e)
               | Some (Inr (this1, other1, s1)) \<Rightarrow>
                  (case store (links s1) [(Next, Some oc, Some c), (Prev, Some c, Some oc)] of
                     None \<Rightarrow> Some (Inl NULL_DEREF)
                   | Some h \<Rightarrow>
                      if it_prev this1 = Some oc then
                        Some (Inr (oc,
                                   this1\<lparr>it_prev := None, current := None, it_next := None\<rparr>,
                                   other1\<lparr>it_prev := None, current := None, it_next := None\<rparr>,
                                   s1\<lparr>links := h, last_of := (last_of s1)(l := None)\<rparr>))
                      else
                        (case store h [(Next, it_prev this1, it_next other1),
                                       (Prev, it_next other1, it_prev this1)] of
                           None \<Rightarrow> Some (Inl NULL_DEREF)
                         | Some h' \<Rightarrow>
                            Some (Inr (oc,
                                       this1\<lparr>current := None, it_next := it_next other1\<rparr>,
                                       other1\<lparr>current := None, it_prev := it_prev this1\<rparr>,
                                       s1\<lparr>links := h'\<rparr>)))))
           | _ \<Rightarrow> Some (Inl DONT_EXTRACT_DELETED)))"

definition assign_to_sublist ::
  "lid \<Rightarrow> ELIST2_ITERATOR \<Rightarrow> ELIST2_ITERATOR \<Rightarrow> 'w state \<Rightarrow>
     (error + (ELIST2_ITERATOR \<times> ELIST2_ITERATOR \<times> 'w state)) option" where
  "assign_to_sublist l start_it end_it s =
    (if \<not> list_empty l s then Some (Inl LIST_NOT_EMPTY)
     else (case extract_sublist start_it end_it s of
             None \<Rightarrow> None
           | Some (Inl e) \<Rightarrow> Some (Inl e)
           | Some (Inr (t, start_it', end_it', s')) \<Rightarrow>
              Some (Inr (start_it', end_it', s'\<lparr>last_of := (last_of s')(l := Some t)\<rparr>))))"

subsection \<open>ELIST2::internal_clear\<close>

text \<open>
  The zapper is a callback of the caller: it receives the node and may act on the whole
  store. The loop reads \<open>ptr->next\<close> before it hands \<open>ptr\<close> to the zapper.
\<close>

partial_function (option) clear_loop ::
  "(addr \<Rightarrow> 'w state \<Rightarrow> 'w state) \<Rightarrow> addr option \<Rightarrow> 'w state \<Rightarrow> 'w state option" where
  "clear_loop zapper ptr s =
    (case ptr of
       None \<Rightarrow> Some s
     | Some p \<Rightarrow> clear_loop zapper (next (links s p)) (zapper p s))"

definition internal_clear ::
  "(addr \<Rightarrow> 'w state \<Rightarrow> 'w state) \<Rightarrow> lid \<Rightarrow> 'w state \<Rightarrow> 'w state option" where
  "internal_clear zapper l s =
    (if \<not> list_empty l s then
       (case last_of s l of
          None \<Rightarrow> Some s
        | Some t \<Rightarrow>
           clear_loop zapper (next (links s t))
             (s\<lparr>links := (links s)(t := (links s t)\<lparr>next := None\<rparr>),
               last_of := (last_of s)(l := None)\<rparr>))
     else Some s)"

section \<open>The abstraction: the chain as a sequence of nodes\<close>

text \<open>
  \<open>seg h p xs\<close>: in the store \<open>h\<close> the \<open>next\<close> pointers lead from \<open>p\<close> through the
  nodes \<open>xs\<close> in this order, and the \<open>prev\<close> pointers lead back. \<open>dll h xs\<close>: the
  distinct nodes \<open>xs\<close> form one circle, entered from the last node. \<open>wf_list s l xs\<close>:
  the list \<open>l\<close> holds exactly the nodes \<open>xs\<close>, head first; its \<open>last\<close> is the last of
  them, and is unset when there is none.
\<close>

fun seg :: "(addr \<Rightarrow> link) \<Rightarrow> addr \<Rightarrow> addr list \<Rightarrow> bool" where
  "seg h p [] = True"
| "seg h p (x # xs) = (next (h p) = Some x \<and> prev (h x) = Some p \<and> seg h x xs)"

definition dll :: "(addr \<Rightarrow> link) \<Rightarrow> addr list \<Rightarrow> bool" where
  "dll h xs = (xs \<noteq> [] \<and> distinct xs \<and> seg h (last xs) xs)"

definition wf_list :: "'w state \<Rightarrow> lid \<Rightarrow> addr list \<Rightarrow> bool" where
  "wf_list s l xs =
    (if xs = [] then last_of s l = None
     else last_of s l = Some (last xs) \<and> dll (links s) xs)"

text \<open>
  A cursor standing on the \<open>i\<close>-th node of the list, with \<open>prev\<close> and \<open>next\<close> the
  siblings of that node on the circle.
\<close>

definition cursor_at :: "ELIST2_ITERATOR \<Rightarrow> lid \<Rightarrow> addr list \<Rightarrow> nat \<Rightarrow> bool" where
  "cursor_at it l xs i =
    (i < length xs \<and> it_list it = Some l \<and> current it = Some (xs ! i) \<and>
     it_prev it = Some (xs ! ((i + length xs - 1) mod length xs)) \<and>
     it_next it = Some (xs ! (Suc i mod length xs)))"

section \<open>Example stores\<close>

text \<open>The list \<open>[A, B, C]\<close> as the nodes 1, 2, 3 of list 0, and cursors on it.\<close>

definition abc_links :: "addr \<Rightarrow> link" where
  "abc_links =
    (\<lambda>a. \<lparr>prev = None, next = None\<rparr>)
      (1 := \<lparr>prev = Some 3, next = Some 2\<rparr>,
       2 := \<lparr>prev = Some 1, next = Some 3\<rparr>,
       3 := \<lparr>prev = Some 2, next = Some 1\<rparr>)"

definition abc_state :: "unit state" where
  "abc_state = \<lparr>links = abc_links, last_of = (\<lambda>l. None)(0 := Some 3), world = ()\<rparr>"

definition cursor :: "lid \<Rightarrow> addr \<Rightarrow> addr option \<Rightarrow> addr \<Rightarrow> addr option \<Rightarrow> ELIST2_ITERATOR" where
  "cursor l p c n cp =
    \<lparr>it_list = Some l, it_prev = Some p, current = c, it_next = Some n, cycle_pt = cp,
     ex_current_was_last = False, ex_current_was_cycle_pt = False, started_cycling = False\<rparr>"

text \<open>The ring \<open>A \<rightarrow> C \<rightarrow> B \<rightarrow> A\<close>: the nodes \<open>A\<close> and \<open>C\<close> of \<open>[A, B, C]\<close> have traded places.\<close>

definition acb_links :: "addr \<Rightarrow> link" where
  "acb_links =
    (\<lambda>a. \<lparr>prev = None, next = None\<rparr>)
      (1 := \<lparr>prev = Some 2, next = Some 3\<rparr>,
       2 := \<lparr>prev = Some 3, next = Some 1\<rparr>,
       3 := \<lparr>prev = Some 1, next = Some 2\<rparr>)"

definition acb_state :: "addr \<Rightarrow> unit state" where
  "acb_state t = \<lparr>links = acb_links, last_of = (\<lambda>l. None)(0 := Some t), world = ()\<rparr>"

text \<open>
  A singleton list \<open>[D]\<close> (node 4, list 1) beside the list \<open>[A, B, C]\<close> (list 0).
\<close>

definition two_lists_links :: "addr \<Rightarrow> link" where
  "two_lists_links =
    (\<lambda>a. \<lparr>prev = None, next = None\<rparr>)
      (1 := \<lparr>prev = Some 3, next = Some 2\<rparr>,
       2 := \<lparr>prev = Some 1, next = Some 3\<rparr>,
       3 := \<lparr>prev = Some 2, next = Some 1\<rparr>,
       4 := \<lparr>prev = Some 4, next = Some 4\<rparr>)"

definition two_lists_state :: "unit state" where
  "two_lists_state =
    \<lparr>links = two_lists_links, last_of = (\<lambda>l. None)(0 := Some 3, 1 := Some 4), world = ()\<rparr>"

text \<open>
  What \<open>exchange\<close> leaves of these two lists when this cursor stands on \<open>D\<close> and the
  other on \<open>B\<close>.
\<close>

definition two_lists_exchanged :: "unit state" where
  "two_lists_exchanged =
    \<lparr>links = (\<lambda>a. \<lparr>prev = None, next = None\<rparr>)
               (1 := \<lparr>prev = Some 3, next = Some 4\<rparr>,
                2 := \<lparr>prev = Some 4, next = Some 4\<rparr>,
                3 := \<lparr>prev = Some 4, next = Some 1\<rparr>,
                4 := \<lparr>prev = Some 2, next = Some 3\<rparr>),
     last_of = (\<lambda>l. None)(0 := Some 3, 1 := Some 2), world = ()\<rparr>"

text \<open>The list \<open>[A, B, C, D]\<close> of scenario B: the nodes 1, 2, 3, 4 of list 0.\<close>

definition abcd_links :: "addr \<Rightarrow> link" where
  "abcd_links =
    (\<lambda>a. \<lparr>prev = None, next = None\<rparr>)
      (1 := \<lparr>prev = Some 4, next = Some 2\<rparr>,
       2 := \<lparr>prev = Some 1, next = Some 3\<rparr>,
       3 := \<lparr>prev = Some 2, next = Some 4\<rparr>,
       4 := \<lparr>prev = Some 3, next = Some 1\<rparr>)"

definition abcd_state :: "unit state" where
  "abcd_state = \<lparr>links = abcd_links, last_of = (\<lambda>l. None)(0 := Some 4), world = ()\<rparr>"

text \<open>
  The list \<open>[A, B, C, D]\<close> after a cursor has extracted \<open>B\<close>, and after a second cursor
  has then extracted the tail \<open>D\<close>: the list \<open>[A, C]\<close>.
\<close>

definition acd_state :: "unit state" where
  "acd_state =
    \<lparr>links = (\<lambda>a. \<lparr>prev = None, next = None\<rparr>)
               (1 := \<lparr>prev = Some 4, next = Some 3\<rparr>,
                3 := \<lparr>prev = Some 1, next = Some 4\<rparr>,
                4 := \<lparr>prev = Some 3, next = Some 1\<rparr>),
     last_of = (\<lambda>l. None)(0 := Some 4), world = ()\<rparr>"

definition ac_state :: "unit state" where
  "ac_state =
    \<lparr>links = (\<lambda>a. \<lparr>prev = None, next = None\<rparr>)
               (1 := \<lparr>prev = Some 3, next = Some 3\<rparr>,
                3 := \<lparr>prev = Some 1, next = Some 1\<rparr>),
     last_of = (\<lambda>l. None)(0 := Some 3), world = ()\<rparr>"

text \<open>The list \<open>[D, B, A, C]\<close> of scenario A: the nodes 4, 2, 1, 3 in this order.\<close>

definition dbac_links :: "addr \<Rightarrow> link" where
  "dbac_links =
    (\<lambda>a. \<lparr>prev = None, next = None\<rparr>)
      (4 := \<lparr>prev = Some 3, next = Some 2\<rparr>,
       2 := \<lparr>prev = Some 4, next = Some 1\<rparr>,
       1 := \<lparr>prev = Some 2, next = Some 3\<rparr>,
       3 := \<lparr>prev = Some 1, next = Some 4\<rparr>)"

definition dbac_state :: "unit state" where
  "dbac_state = \<lparr>links = dbac_links, last_of = (\<lambda>l. None)(0 := Some 3), world = ()\<rparr>"

text \<open>A store in which no list holds a node; the world is a log of zapper calls.\<close>

definition empty_state :: "(addr \<times> bool) list state" where
  "empty_state = \<lparr>links = (\<lambda>a. \<lparr>prev = None, next = None\<rparr>), last_of = (\<lambda>l. None), world = []\<rparr>"

text \<open>A zapper that records the node it is given and whether list \<open>l\<close> is empty then.\<close>

definition logging_zapper :: "lid \<Rightarrow> addr \<Rightarrow> (addr \<times> bool) list state \<Rightarrow> (addr \<times> bool) list state" where
  "logging_zapper l p s = s\<lparr>world := world s @ [(p, list_empty l s)]\<rparr>"

section \<open>Comparators and repeated insertion\<close>

text \<open>
  A comparator returns a negative, zero or positive number. It is a total order when any
  two nodes are comparable and the relation \<open>comparator a b \<le> 0\<close> is transitive.
\<close>

definition total_order :: "(addr \<Rightarrow> addr \<Rightarrow> int) \<Rightarrow> bool" where
  "total_order comparator =
    ((\<forall>a b. comparator a b \<le> 0 \<or> comparator b a \<le> 0) \<and>
     (\<forall>a b c. comparator a b \<le> 0 \<longrightarrow> comparator b c \<le> 0 \<longrightarrow> comparator a c \<le> 0))"

text \<open>The comparator "by identifier, ascending", the identifier of a node being its address.\<close>

definition by_id :: "addr \<Rightarrow> addr \<Rightarrow> int" where
  "by_id a b = int a - int b"

text \<open>The comparator by identifier divided by ten: 10..19 are equal, below 20..29, and so on.\<close>

definition by_tens :: "addr \<Rightarrow> addr \<Rightarrow> int" where
  "by_tens a b = int (a div 10) - int (b div 10)"

text \<open>\<open>add_sorted\<close> called for each node of a sequence in turn, stopping at an error.\<close>

fun add_sorted_all ::
  "(addr \<Rightarrow> addr \<Rightarrow> int) \<Rightarrow> lid \<Rightarrow> addr list \<Rightarrow> 'w state \<Rightarrow> (error + 'w state) option" where
  "add_sorted_all comparator l [] s = Some (Inr s)"
| "add_sorted_all comparator l (p # ps) s =
    (case add_sorted comparator l p s of
       Some (Inr s') \<Rightarrow> add_sorted_all comparator l ps s'
     | r \<Rightarrow> r)"

section \<open>Exchange: guards, tail and cycle marker\<close>

text \<open>
  The two guards of \<open>exchange\<close>, in their order: nothing changes when either list is empty
  or when the two \<open>current\<close> pointers are equal; otherwise, if either \<open>current\<close> is unset,
  the call fails with the error for deleted elements.
\<close>

lemma exchange_guards:
  "it_list this = Some l \<Longrightarrow> it_list other = Some ol \<Longrightarrow>
   ((list_empty l s \<or> list_empty ol s \<or> current this = current other)
      \<longrightarrow> exchange this other s = Inr (this, other, s)) \<and>
   (\<not> list_empty l s \<and> \<not> list_empty ol s \<and> current this \<noteq> current other \<and>
    (current this = None \<or> current other = None)
      \<longrightarrow> exchange this other s = Inl DONT_EXCHANGE_DELETED)"
  by (simp add: exchange_def)

text \<open>
  C8. \<open>exchange\<close> is to fail whenever either \<open>current\<close> is unset, the lists being
  non-empty and the two positions distinct. It does not when both are unset. From the
  list \<open>[A, B, C, D]\<close> one cursor extracts \<open>B\<close> and another the tail \<open>D\<close>; the list \<open>[A, C]\<close> is
  not empty, the first cursor stands on the gap between \<open>A\<close> and \<open>C\<close>, the second on the
  gap between \<open>C\<close> and \<open>A\<close>. Both \<open>current\<close> pointers are null, hence equal, and the first
  guard returns before the test for deleted elements is reached: \<open>exchange\<close> returns with
  nothing changed and no error.
\<close>

theorem exchange_both_deleted_returns:
  "extract_link (cursor 0 1 (Some 2) 3 None) abcd_state
     = Inr (2, cursor 0 1 None 3 None, acd_state) \<and>
   extract_link (cursor 0 3 (Some 4) 1 None) acd_state
     = Inr (4, (cursor 0 3 None 1 None)\<lparr>ex_current_was_last := True\<rparr>, ac_state) \<and>
   wf_list ac_state 0 [1, 3] \<and> \<not> list_empty 0 ac_state \<and>
   exchange (cursor 0 1 None 3 None) ((cursor 0 3 None 1 None)\<lparr>ex_current_was_last := True\<rparr>)
       ac_state
     = Inr (cursor 0 1 None 3 None, (cursor 0 3 None 1 None)\<lparr>ex_current_was_last := True\<rparr>,
            ac_state)"
  by (simp add: extract_link_def exchange_def cursor_def abcd_state_def abcd_links_def
        acd_state_def ac_state_def wf_list_def dll_def list_empty_def Let_def fun_eq_iff)

text \<open>
  C3. On the list \<open>[A, B, C]\<close> this cursor stands on \<open>A\<close> and the other on \<open>C\<close>, each on
  its own cycle marker. After \<open>exchange\<close> the other cursor stands on \<open>A\<close>, but its cycle
  marker is still \<open>C\<close>: the second test reads the marker that the first has already
  overwritten. And when the marker of the other cursor is \<open>B\<close>, this cursor, which stood on
  its own marker \<open>A\<close>, ends on \<open>C\<close> with the marker \<open>B\<close>: it receives the other cursor's
  marker, not the node that took the place of \<open>A\<close>.
\<close>

theorem exchange_cycle_pt_keeps_node:
  "exchange (cursor 0 3 (Some 1) 2 (Some 1)) (cursor 0 2 (Some 3) 1 (Some 3)) abc_state
     = Inr (cursor 0 1 (Some 3) 2 (Some 3), cursor 0 2 (Some 1) 3 (Some 3), acb_state 1) \<and>
   exchange (cursor 0 3 (Some 1) 2 (Some 1)) (cursor 0 2 (Some 3) 1 (Some 2)) abc_state
     = Inr (cursor 0 1 (Some 3) 2 (Some 2), cursor 0 2 (Some 1) 3 (Some 2), acb_state 1)"
  by (simp add: exchange_def cursor_def abc_state_def abc_links_def acb_state_def acb_links_def
        list_empty_def Let_def fun_eq_iff)

text \<open>
  C4. On the list \<open>[A, B, C]\<close> this cursor stands on the tail \<open>C\<close> and the other on \<open>A\<close>.
  The first \<open>exchange\<close> leaves \<open>last\<close> on \<open>C\<close>, which now sits in the place of \<open>A\<close>. The
  second call restores every link and both cursors, but moves \<open>last\<close> to \<open>A\<close>: the list
  that read \<open>[A, B, C]\<close> reads \<open>[B, C, A]\<close>, so two calls do not restore it.
\<close>

theorem exchange_twice_moves_last:
  "exchange (cursor 0 2 (Some 3) 1 None) (cursor 0 3 (Some 1) 2 None) abc_state
     = Inr (cursor 0 2 (Some 1) 3 None, cursor 0 1 (Some 3) 2 None, acb_state 3) \<and>
   exchange (cursor 0 2 (Some 1) 3 None) (cursor 0 1 (Some 3) 2 None) (acb_state 3)
     = Inr (cursor 0 2 (Some 3) 1 None, cursor 0 3 (Some 1) 2 None,
            abc_state\<lparr>last_of := (\<lambda>l. None)(0 := Some 1)\<rparr>) \<and>
   last_of abc_state 0 = Some 3"
  by (simp add: exchange_def cursor_def abc_state_def abc_links_def acb_state_def acb_links_def
        list_empty_def Let_def fun_eq_iff)

section \<open>Relative access from a removed position\<close>

lemma walk_next_error: "walk_next h n p = Inl e \<Longrightarrow> e = NULL_DEREF"
  by (induction n arbitrary: p) (auto split: option.splits)

lemma walk_prev_error: "walk_prev h n p = Inl e \<Longrightarrow> e = NULL_DEREF"
  by (induction n arbitrary: p) (auto split: option.splits)

text \<open>
  C10. On a non-empty list, a cursor whose \<open>current\<close> is unset does not fail for that
  reason in \<open>data_relative\<close>: a negative offset counts backwards from the retained
  \<open>next\<close>, any other offset counts forwards from the retained \<open>prev\<close>, and offset 0
  returns the retained \<open>prev\<close> itself.
\<close>

theorem data_relative_unset_current:
  "it_list it = Some l \<Longrightarrow> \<not> list_empty l s \<Longrightarrow> current it = None \<Longrightarrow>
   data_relative it offset s =
     (case (if sint offset < 0 then walk_prev (links s) (nat (- sint offset)) (it_next it)
            else walk_next (links s) (nat (sint offset)) (it_prev it)) of
        Inl e \<Rightarrow> Inl e
      | Inr None \<Rightarrow> Inl NULL_DATA
      | Inr (Some p) \<Rightarrow> Inr p) \<and>
   data_relative it offset s \<notin> {Inl DELETED_ELEMENT, Inl DONT_EXCHANGE_DELETED, Inl DONT_EXTRACT_DELETED} \<and>
   (it_prev it = Some p \<longrightarrow> data_relative it 0 s = Inr p)"
  by (auto simp: data_relative_def split: sum.splits option.splits
           dest: walk_next_error walk_prev_error)

theorem data_relative_unset_current_witness:
  "data_relative (cursor 0 3 None 2 None) 0 abc_state = Inr 3 \<and>
   data_relative (cursor 0 3 None 2 None) 1 abc_state = Inr 1 \<and>
   data_relative (cursor 0 3 None 2 None) (- 1) abc_state = Inr 1"
  using data_relative_unset_current [of "cursor 0 3 None 2 None" 0 abc_state 0 3]
        data_relative_unset_current [of "cursor 0 3 None 2 None" 0 abc_state 1 3]
        data_relative_unset_current [of "cursor 0 3 None 2 None" 0 abc_state "- 1" 3]
  by (simp add: cursor_def abc_state_def abc_links_def list_empty_def)

section \<open>Chains and rings\<close>

subsection \<open>Segments and rings\<close>

lemma seg_append: "seg h p (xs @ ys) = (seg h p xs \<and> seg h (last (p # xs)) ys)"
  by (induction xs arbitrary: p) auto

lemma seg_nth:
  "seg h p xs \<Longrightarrow> i < length xs \<Longrightarrow>
   next (h ((p # xs) ! i)) = Some (xs ! i) \<and> prev (h (xs ! i)) = Some ((p # xs) ! i)"
proof (induction xs arbitrary: p i)
  case Nil
  then show ?case by simp
next
  case (Cons x xs)
  then show ?case by (cases i) auto
qed

lemma last_cons_nth:
  "i < length xs \<Longrightarrow> (last xs # xs) ! i = xs ! ((i + length xs - 1) mod length xs)"
proof (cases i)
  case 0
  assume "i < length xs"
  with 0 show ?thesis by (cases xs rule: rev_cases) (auto simp: nth_append)
next
  case (Suc k)
  assume "i < length xs"
  with Suc show ?thesis by simp
qed

lemma dll_prev:
  "dll h xs \<Longrightarrow> i < length xs \<Longrightarrow>
   prev (h (xs ! i)) = Some (xs ! ((i + length xs - 1) mod length xs))"
  using seg_nth [of h "last xs" xs i] last_cons_nth [of i xs]
  by (simp add: dll_def)

lemma succ_mod_less: "i < n \<Longrightarrow> Suc i mod n < (n::nat)"
  by (rule mod_less_divisor) simp

lemma pred_succ_mod:
  "i < n \<Longrightarrow> (Suc i mod n + n - 1) mod n = i"
  by (cases "Suc i = n") (auto simp: mod_Suc)

lemma dll_next:
  assumes "dll h xs" "i < length xs"
  shows "next (h (xs ! i)) = Some (xs ! (Suc i mod length xs))"
proof -
  let ?n = "length xs"
  let ?j = "Suc i mod ?n"
  have j: "?j < ?n" using assms(2) by (rule succ_mod_less)
  have "seg h (last xs) xs" using assms(1) by (simp add: dll_def)
  from seg_nth [OF this j] have "next (h ((last xs # xs) ! ?j)) = Some (xs ! ?j)" by simp
  moreover have "(last xs # xs) ! ?j = xs ! i"
    using last_cons_nth [OF j] pred_succ_mod [OF assms(2)] by simp
  ultimately show ?thesis by simp
qed

subsection \<open>Moving a cursor forwards\<close>

lemma forward_dll:
  assumes d: "dll (links s) xs" and ne: "\<not> list_empty l s" and c: "cursor_at it l xs i"
  shows "forward it s =
           Inr (Some (xs ! (Suc i mod length xs)),
                it\<lparr>it_prev := Some (xs ! i), started_cycling := True,
                   current := Some (xs ! (Suc i mod length xs)),
                   it_next := Some (xs ! (Suc (Suc i mod length xs) mod length xs))\<rparr>)"
proof -
  have i: "i < length xs" using c by (auto simp: cursor_at_def)
  have j: "Suc i mod length xs < length xs" using i by (rule succ_mod_less)
  show ?thesis
    using c ne dll_next [OF d i] dll_next [OF d j]
    by (simp add: forward_def cursor_at_def Let_def)
qed

lemma forward_at:
  assumes "wf_list s l xs" "cursor_at it l xs i"
  shows "forward it s =
           Inr (Some (xs ! (Suc i mod length xs)),
                it\<lparr>it_prev := Some (xs ! i), started_cycling := True,
                   current := Some (xs ! (Suc i mod length xs)),
                   it_next := Some (xs ! (Suc (Suc i mod length xs) mod length xs))\<rparr>)"
proof (rule forward_dll [OF _ _ assms(2)])
  have ne: "xs \<noteq> []" using assms(2) by (auto simp: cursor_at_def)
  with assms(1) show "dll (links s) xs" "\<not> list_empty l s"
    by (auto simp: wf_list_def list_empty_def)
qed

subsection \<open>Every node of a ring is the successor of its predecessor\<close>

lemma seg_mem:
  "seg h p xs \<Longrightarrow> a \<in> set xs \<Longrightarrow> \<exists>b \<in> set (p # xs). prev (h a) = Some b \<and> next (h b) = Some a"
  by (induction xs arbitrary: p) auto

lemma dll_prev_next:
  "dll h xs \<Longrightarrow> a \<in> set xs \<Longrightarrow> \<exists>b \<in> set xs. prev (h a) = Some b \<and> next (h b) = Some a"
  using seg_mem [of h "last xs" xs a] by (auto simp: dll_def)

subsection \<open>Traversals of an empty list\<close>

lemma it_list_mark_cycle_pt [simp]: "it_list (mark_cycle_pt it) = it_list it"
  by (simp add: mark_cycle_pt_def split: option.splits)

lemma it_list_set_to_list [simp]: "it_list (set_to_list l s) = Some l"
  by (simp add: set_to_list_def Let_def)

lemma length_loop_empty:
  "it_list it = Some l \<Longrightarrow> list_empty l s \<Longrightarrow> length_loop it s c = Some (Inr c)"
  by (subst length_loop.simps) (simp add: cycled_list_def)

lemma sort_extract_empty:
  "it_list it = Some l \<Longrightarrow> list_empty l s \<Longrightarrow> sort_extract n it s base = Some (Inr (it, s, base))"
  by (subst sort_extract.simps) (simp add: cycled_list_def)

lemma length_list_empty: "list_empty l s \<Longrightarrow> length_list l s = Some (Inr 0)"
  by (simp add: length_list_def length_loop_empty)

lemma sort_empty: "list_empty l s \<Longrightarrow> sort_list comparator l s = Some (Inr s)"
  by (simp add: sort_list_def length_list_empty sort_extract_empty [of _ l] qsort_def)




subsection \<open>Rings under pointer updates\<close>

lemma butlast_not_last: "distinct xs \<Longrightarrow> a \<in> set (butlast xs) \<Longrightarrow> a \<noteq> last xs"
  by (cases xs rule: rev_cases) auto

lemma seg_frame:
  "(\<forall>a \<in> set (butlast (p # xs)). next (h' a) = next (h a)) \<Longrightarrow>
   (\<forall>a \<in> set xs. prev (h' a) = prev (h a)) \<Longrightarrow> seg h' p xs = seg h p xs"
proof (induction xs arbitrary: p)
  case Nil
  then show ?case by simp
next
  case (Cons x xs)
  have "seg h' x xs = seg h x xs"
    using Cons.prems by (intro Cons.IH) auto
  with Cons.prems show ?case by auto
qed

lemma seg_frame_distinct:
  assumes "distinct (p # xs)"
    and "\<forall>a \<in> set (p # xs). a \<noteq> last (p # xs) \<longrightarrow> next (h' a) = next (h a)"
    and "\<forall>a \<in> set xs. prev (h' a) = prev (h a)"
  shows "seg h' p xs = seg h p xs"
proof (rule seg_frame)
  show "\<forall>a\<in>set (butlast (p # xs)). next (h' a) = next (h a)"
    using assms(2) butlast_not_last [OF assms(1)] in_set_butlastD [of _ "p # xs"] by blast
  show "\<forall>a\<in>set xs. prev (h' a) = prev (h a)" by (rule assms(3))
qed

lemma dll_rotate1: "dll h xs \<Longrightarrow> dll h (rotate1 xs)"
  by (cases xs) (auto simp: dll_def seg_append)

lemma dll_rotate: "dll h xs \<Longrightarrow> dll h (rotate k xs)"
  by (induction k) (auto simp: dll_rotate1)

lemma dll_rotate_back:
  assumes "dll h (rotate k xs)" shows "dll h xs"
proof -
  let ?n = "length xs"
  have "rotate (?n - k mod ?n) (rotate k xs) = xs"
  proof (cases "xs = []")
    case True then show ?thesis by simp
  next
    case False
    then have "k mod ?n < ?n" by simp
    then have "(?n - k mod ?n + k) mod ?n = (?n - k mod ?n + k mod ?n) mod ?n"
      by (metis mod_add_right_eq)
    also have "\<dots> = 0" using \<open>k mod ?n < ?n\<close> by simp
    finally show ?thesis
      by (simp add: rotate_rotate rotate_conv_mod [of "?n - k mod ?n + k"])
  qed
  with dll_rotate [OF assms, of "?n - k mod ?n"] show ?thesis by simp
qed

lemma dll_append_commute: "dll h (xs @ ys) \<Longrightarrow> dll h (ys @ xs)"
  using dll_rotate [of h "xs @ ys" "length xs"] by (simp add: rotate_append)

lemma dll_insert:
  assumes d: "dll h xs" and new: "new \<notin> set xs"
    and n1: "next (h' new) = Some (hd xs)" and p1: "prev (h' new) = Some (last xs)"
    and p2: "prev (h' (hd xs)) = Some new" and n2: "next (h' (last xs)) = Some new"
    and fn: "\<forall>a \<in> set xs. a \<noteq> last xs \<longrightarrow> next (h' a) = next (h a)"
    and fp: "\<forall>a \<in> set xs. a \<noteq> hd xs \<longrightarrow> prev (h' a) = prev (h a)"
  shows "dll h' (xs @ [new])"
proof -
  from d obtain c ys where xs: "xs = c # ys" by (cases xs) (auto simp: dll_def)
  from d xs have dist: "distinct (c # ys)" and sg: "seg h c ys"
    by (auto simp: dll_def)
  have "seg h' c ys = seg h c ys"
  proof (rule seg_frame_distinct [OF dist])
    show "\<forall>a\<in>set (c # ys). a \<noteq> last (c # ys) \<longrightarrow> next (h' a) = next (h a)"
      using fn xs by simp
    show "\<forall>a\<in>set ys. prev (h' a) = prev (h a)"
      using fp dist xs by auto
  qed
  with sg have "seg h' c ys" by simp
  with n1 p1 p2 n2 xs new dist show ?thesis
    by (auto simp: dll_def seg_append)
qed




lemma dll_close:
  assumes d: "dll h (ms @ rs)" and ne: "rs \<noteq> []"
    and n: "next (h' (last rs)) = Some (hd rs)" and p: "prev (h' (hd rs)) = Some (last rs)"
    and fn: "\<forall>a \<in> set rs. a \<noteq> last rs \<longrightarrow> next (h' a) = next (h a)"
    and fp: "\<forall>a \<in> set rs. a \<noteq> hd rs \<longrightarrow> prev (h' a) = prev (h a)"
  shows "dll h' rs"
proof -
  from ne obtain r rs' where rs: "rs = r # rs'" by (cases rs) auto
  from d rs have dist: "distinct (r # rs')" and sg: "seg h r rs'"
    by (auto simp: dll_def seg_append)
  have "seg h' r rs' = seg h r rs'"
  proof (rule seg_frame_distinct [OF dist])
    show "\<forall>a\<in>set (r # rs'). a \<noteq> last (r # rs') \<longrightarrow> next (h' a) = next (h a)"
      using fn rs by simp
    show "\<forall>a\<in>set rs'. prev (h' a) = prev (h a)"
      using fp dist rs by auto
  qed
  with sg n p rs dist show ?thesis by (auto simp: dll_def)
qed

subsection \<open>Counting the nodes\<close>

lemma wf_list_nonempty:
  "wf_list s l xs \<Longrightarrow> xs \<noteq> [] \<Longrightarrow> last_of s l = Some (last xs) \<and> dll (links s) xs \<and> distinct xs"
  by (simp add: wf_list_def dll_def)

lemma wf_list_empty_iff: "wf_list s l xs \<Longrightarrow> list_empty l s = (xs = [])"
  by (auto simp: wf_list_def list_empty_def split: if_splits)

lemma set_to_list_at:
  assumes w: "wf_list s l xs" and ne: "xs \<noteq> []"
  shows "cursor_at (set_to_list l s) l xs 0"
proof -
  let ?n = "length xs"
  from wf_list_nonempty [OF w ne] have la: "last_of s l = Some (last xs)" and d: "dll (links s) xs" by auto
  have n: "0 < ?n" "?n - 1 < ?n" using ne by auto
  have l: "last xs = xs ! (?n - 1)" using ne by (simp add: last_conv_nth)
  have "Suc (?n - 1) mod ?n = 0" using n by simp
  with dll_next [OF d n(2)] have a: "next (links s (last xs)) = Some (xs ! 0)" using l by simp
  from dll_next [OF d n(1)] have b: "next (links s (xs ! 0)) = Some (xs ! (Suc 0 mod ?n))" .
  show ?thesis using la a b l n by (simp add: cursor_at_def set_to_list_def)
qed

lemma mark_cycle_pt_at:
  "cursor_at it l xs i \<Longrightarrow>
   cursor_at (mark_cycle_pt it) l xs i \<and> cycle_pt (mark_cycle_pt it) = Some (xs ! i) \<and>
   \<not> started_cycling (mark_cycle_pt it)"
  by (simp add: cursor_at_def mark_cycle_pt_def)

lemma forward_at':
  assumes "wf_list s l xs" "cursor_at it l xs i"
  shows "\<exists>it'. forward it s = Inr (Some (xs ! (Suc i mod length xs)), it') \<and>
           cursor_at it' l xs (Suc i mod length xs) \<and> cycle_pt it' = cycle_pt it \<and>
           started_cycling it'"
  using forward_at [OF assms] assms(2) succ_mod_less [of i "length xs"]
    pred_succ_mod [of i "length xs"]
  by (simp add: cursor_at_def)

lemma cursor_at_cycled:
  "cursor_at it l xs i \<Longrightarrow> distinct xs \<Longrightarrow> xs \<noteq> [] \<Longrightarrow> wf_list s l xs \<Longrightarrow> cycle_pt it = Some (xs ! 0) \<Longrightarrow>
   cycled_list it s = Inr (i = 0 \<and> started_cycling it)"
  by (auto simp: cycled_list_def cursor_at_def wf_list_empty_iff nth_eq_iff_index_eq)

lemma length_loop_at:
  assumes w: "wf_list s l xs"
  shows "cursor_at it l xs i \<Longrightarrow> cycle_pt it = Some (xs ! 0) \<Longrightarrow> started_cycling it \<Longrightarrow>
         c + int ((length xs - i) mod length xs) \<le> 2 ^ 31 - 1 \<Longrightarrow>
         length_loop it s c = Some (Inr (c + int ((length xs - i) mod length xs)))"
proof (induction "(length xs - i) mod length xs" arbitrary: i it c)
  case 0
  then have i: "i < length xs" and ne: "xs \<noteq> []" by (auto simp: cursor_at_def)
  with 0(1) have "i = 0" 
    by (metis  diff_is_0_eq  diff_less  gr_zeroI mod_less nat_less_le zero_less_diff)
  with 0 w ne wf_list_nonempty [OF w ne] show ?case
    by (subst length_loop.simps) (simp add: cursor_at_cycled [of it l xs 0 s])
next
  case (Suc k)
  then have i: "i < length xs" and ne: "xs \<noteq> []" by (auto simp: cursor_at_def)
  from Suc(2) i have i0: "i \<noteq> 0" by (cases "i = 0") auto
  from wf_list_nonempty [OF w ne] have dist: "distinct xs" by simp
  from forward_at' [OF w Suc(3)] obtain it' where
    f: "forward it s = Inr (Some (xs ! (Suc i mod length xs)), it')" and
    c': "cursor_at it' l xs (Suc i mod length xs)" and cp: "cycle_pt it' = cycle_pt it"
    and st: "started_cycling it'" by blast
  have m: "(length xs - i) mod length xs = length xs - i" using i i0 by simp
  have k: "k = (length xs - Suc i mod length xs) mod length xs"
    using Suc(2) i i0 m by (cases "Suc i = length xs") auto
  have c1: "c \<noteq> 2 ^ 31 - 1" using Suc(6) m i by auto
  have "length_loop it' s (c + 1) = Some (Inr (c + 1 + int ((length xs - Suc i mod length xs) mod length xs)))"
    using Suc(1) [OF k c'] cp Suc(4) st Suc(6) Suc(2) k by simp
  moreover have "c + 1 + int ((length xs - Suc i mod length xs) mod length xs) = c + int ((length xs - i) mod length xs)"
    using k Suc(2) by simp
  ultimately show ?case
    using f c1 cursor_at_cycled [OF Suc(3) dist ne w Suc(4)] i0
    by (subst length_loop.simps) simp
qed

lemma length_list_wf:
  assumes w: "wf_list s l xs" and b: "length xs < 2 ^ 31"
  shows "length_list l s = Some (Inr (int (length xs)))"
proof (cases "xs = []")
  case True
  with w show ?thesis by (simp add: length_list_empty wf_list_empty_iff)
next
  case False
  let ?it = "mark_cycle_pt (set_to_list l s)"
  from wf_list_nonempty [OF w False] have dist: "distinct xs" by simp
  from mark_cycle_pt_at [OF set_to_list_at [OF w False]]
  have c: "cursor_at ?it l xs 0" and cp: "cycle_pt ?it = Some (xs ! 0)" and st: "\<not> started_cycling ?it"
    by auto
  from forward_at' [OF w c] obtain it' where
    f: "forward ?it s = Inr (Some (xs ! (Suc 0 mod length xs)), it')" and
    c': "cursor_at it' l xs (Suc 0 mod length xs)" and cp': "cycle_pt it' = cycle_pt ?it"
    and st': "started_cycling it'" by blast
  have e: "1 + int ((length xs - Suc 0 mod length xs) mod length xs) = int (length xs)"
    using False by (cases "length xs = 1") (auto simp: Suc_leI)
  have "length_loop it' s 1 = Some (Inr (1 + int ((length xs - Suc 0 mod length xs) mod length xs)))"
    using b e cp' cp st' by (intro length_loop_at [OF w c']) auto
  with e f st cursor_at_cycled [OF c dist False w cp] show ?thesis
    unfolding length_list_def by (subst length_loop.simps) simp
qed




subsection \<open>Appending at the tail\<close>

lemma dll_head: "dll h xs \<Longrightarrow> next (h (last xs)) = Some (hd xs) \<and> prev (h (hd xs)) = Some (last xs)"
  by (cases xs) (auto simp: dll_def)

lemma dll_singleton: "dll h [a] = (next (h a) = Some a \<and> prev (h a) = Some a)"
  by (auto simp: dll_def)

lemma add_to_end_wf:
  assumes w: "wf_list s l xs" and new: "new \<notin> set xs" and it: "it_list it = Some l"
  shows "\<exists>it' s'. add_to_end it new s = Inr (it', s') \<and> it_list it' = Some l \<and>
           wf_list s' l (xs @ [new]) \<and> world s' = world s"
proof (cases "xs = []")
  case True
  with w it show ?thesis
    by (simp add: add_to_end_def wf_list_def dll_singleton)
next
  case False
  from wf_list_nonempty [OF w False] have la: "last_of s l = Some (last xs)"
    and d: "dll (links s) xs" by auto
  from dll_head [OF d] have hd: "next (links s (last xs)) = Some (hd xs)" by simp
  have m: "last xs \<in> set xs" "hd xs \<in> set xs" using False by auto
  with new have neq: "new \<noteq> last xs" "new \<noteq> hd xs" by auto
  let ?h = "links s"
  obtain h' where st: "store ?h [(Next, Some new, Some (hd xs)), (Prev, Some new, Some (last xs)),
                        (Prev, Some (hd xs), Some new), (Next, Some (last xs), Some new)] = Some h'"
    and p: "next (h' new) = Some (hd xs)" "prev (h' new) = Some (last xs)"
       "prev (h' (hd xs)) = Some new" "next (h' (last xs)) = Some new"
       "\<forall>a \<in> set xs. a \<noteq> last xs \<longrightarrow> next (h' a) = next (?h a)"
       "\<forall>a \<in> set xs. a \<noteq> hd xs \<longrightarrow> prev (h' a) = prev (?h a)"
    using neq new by auto
  from dll_insert [OF d new p] have "dll h' (xs @ [new])" .
  with la hd st it show ?thesis
    by (simp add: add_to_end_def wf_list_def)
qed

lemma add_all_to_end_wf:
  "wf_list s l xs \<Longrightarrow> distinct ps \<Longrightarrow> set ps \<inter> set xs = {} \<Longrightarrow> it_list it = Some l \<Longrightarrow>
   \<exists>it' s'. add_all_to_end it s ps = Inr (it', s') \<and> it_list it' = Some l \<and>
            wf_list s' l (xs @ ps) \<and> world s' = world s"
proof (induction ps arbitrary: it s xs)
  case Nil
  then show ?case by simp
next
  case (Cons p ps)
  from Cons.prems have "p \<notin> set xs" by auto
  from add_to_end_wf [OF Cons.prems(1) this Cons.prems(4)] obtain it1 s1 where
    a: "add_to_end it p s = Inr (it1, s1)" "it_list it1 = Some l" "wf_list s1 l (xs @ [p])"
       "world s1 = world s" by blast
  from Cons.prems have "distinct ps" "set ps \<inter> set (xs @ [p]) = {}" by auto
  from Cons.IH [OF a(3) this a(2)] a show ?case by auto
qed




subsection \<open>Extracting the head\<close>

lemma extract_head:
  assumes w: "wf_list s l (c # ys)" and cur: "cursor_at it l (c # ys) 0"
  shows "\<exists>it' s'. extract_link it s = Inr (c, it', s') \<and> wf_list s' l ys \<and>
           it_list it' = Some l \<and> current it' = None \<and>
           started_cycling it' = started_cycling it \<and>
           ex_current_was_cycle_pt it' = (Some c = cycle_pt it) \<and>
           (ys \<noteq> [] \<longrightarrow> it_next it' = Some (hd ys) \<and> it_prev it' = Some (last ys)) \<and>
           world s' = world s"
proof -
  from wf_list_nonempty [OF w] have la: "last_of s l = Some (last (c # ys))"
    and d: "dll (links s) (c # ys)" and dist: "distinct (c # ys)" by auto
  from dll_head [OF d] have hd: "next (links s (last (c # ys))) = Some c" by simp
  from cur have it: "it_list it = Some l" "current it = Some c" by (auto simp: cursor_at_def)
  show ?thesis
  proof (cases "ys = []")
    case True
    with la hd it show ?thesis by (simp add: extract_link_def wf_list_def)
  next
    case False
    then have n: "Suc 0 < length (c # ys)" by (cases ys) auto
    from cur False have pn: "it_prev it = Some (last ys)" "it_next it = Some (hd ys)"
      using n by (auto simp: cursor_at_def last_conv_nth hd_conv_nth)
    from False dist have neq: "last ys \<noteq> c" "hd ys \<noteq> c" by auto
    let ?h = "((links s)(last ys := (links s (last ys))\<lparr>next := Some (hd ys)\<rparr>))"
    let ?h1 = "?h(hd ys := (?h (hd ys))\<lparr>prev := Some (last ys)\<rparr>)"
    let ?h2 = "?h1(c := \<lparr>prev = None, next = None\<rparr>)"
    have "dll ?h2 ys"
    proof (rule dll_close [of "links s" "[c]" ys])
      show "dll (links s) ([c] @ ys)" using d by simp
    qed (use False neq dist in auto)
    with False la hd it pn neq show ?thesis
      by (simp add: extract_link_def wf_list_def)
  qed
qed

lemma forward_unset:
  assumes w: "wf_list s l ys" and ne: "ys \<noteq> []" and it: "it_list it = Some l" "current it = None"
    "it_next it = Some (hd ys)" "it_prev it = Some (last ys)"
  shows "\<exists>it'. forward it s = Inr (Some (hd ys), it') \<and> cursor_at it' l ys 0 \<and>
           started_cycling it' = started_cycling it \<and>
           cycle_pt it' = (if ex_current_was_cycle_pt it then Some (hd ys) else cycle_pt it)"
proof -
  from wf_list_nonempty [OF w ne] have la: "last_of s l = Some (last ys)"
    and d: "dll (links s) ys" by auto
  have n: "0 < length ys" using ne by simp
  from dll_next [OF d n] have "next (links s (hd ys)) = Some (ys ! (Suc 0 mod length ys))"
    using ne by (simp add: hd_conv_nth)
  with la it ne show ?thesis
    by (simp add: forward_def list_empty_def cursor_at_def hd_conv_nth last_conv_nth)
qed

lemma sort_extract_wf:
  "wf_list s l ys \<Longrightarrow> it_list it = Some l \<Longrightarrow>
   (ys \<noteq> [] \<longrightarrow> cursor_at it l ys 0 \<and> cycle_pt it = Some (hd ys) \<and> \<not> started_cycling it) \<Longrightarrow>
   length base + length ys \<le> cnt \<Longrightarrow>
   \<exists>it' s'. sort_extract cnt it s base = Some (Inr (it', s', base @ ys)) \<and>
     it_list it' = Some l \<and> wf_list s' l [] \<and> world s' = world s"
proof (induction ys arbitrary: it s base)
  case Nil
  then show ?case by (simp add: sort_extract_empty [of _ l] wf_list_empty_iff)
next
  case (Cons c ys)
  from Cons.prems have cur: "cursor_at it l (c # ys) 0" and cp: "cycle_pt it = Some c"
    and st: "\<not> started_cycling it" by auto
  from Cons.prems(1) have ne: "\<not> list_empty l s" by (simp add: wf_list_empty_iff)
  with st Cons.prems(2) have cyc: "cycled_list it s = Inr False" by (simp add: cycled_list_def)
  from extract_head [OF Cons.prems(1) cur] obtain it1 s1 where
    e: "extract_link it s = Inr (c, it1, s1)" and w1: "wf_list s1 l ys" and
    i1: "it_list it1 = Some l" "current it1 = None" "started_cycling it1 = started_cycling it"
        "ex_current_was_cycle_pt it1 = (Some c = cycle_pt it)"
        "ys \<noteq> [] \<longrightarrow> it_next it1 = Some (hd ys) \<and> it_prev it1 = Some (last ys)"
        "world s1 = world s" by blast
  have b: "\<not> cnt \<le> length base" "length (base @ [c]) + length ys \<le> cnt" 
    using Cons.prems(4) by auto
  have "\<exists>it2. forward it1 s1 = Inr (if ys = [] then None else Some (hd ys), it2) \<and> it_list it2 = Some l \<and>
           (ys \<noteq> [] \<longrightarrow> cursor_at it2 l ys 0 \<and> cycle_pt it2 = Some (hd ys) \<and> \<not> started_cycling it2)"
  proof (cases "ys = []")
    case True
    with w1 i1 show ?thesis by (simp add: forward_def wf_list_empty_iff)
  next
    case False
    with i1 have "it_next it1 = Some (hd ys)" "it_prev it1 = Some (last ys)" by auto
    from forward_unset [OF w1 False i1(1,2) this] i1 cp st False show ?thesis
      by (auto simp: cursor_at_def)
  qed
  then obtain it2 where f: "forward it1 s1 = Inr (if ys = [] then None else Some (hd ys), it2)"
    and i2: "it_list it2 = Some l"
      "ys \<noteq> [] \<longrightarrow> cursor_at it2 l ys 0 \<and> cycle_pt it2 = Some (hd ys) \<and> \<not> started_cycling it2"
    by blast
  from Cons.IH [OF w1 i2 b(2)] obtain it' s' where
    r: "sort_extract cnt it2 s1 (base @ [c]) = Some (Inr (it', s', (base @ [c]) @ ys))"
      "it_list it' = Some l" "wf_list s' l []" "world s' = world s1" by blast
  show ?case using cyc e b(1) f r i1(6)
    by (subst sort_extract.simps) simp
qed




subsection \<open>Sorting the array and rebuilding the list\<close>

lemma set_qsort_insert [simp]: "set (qsort_insert cmp x ys) = insert x (set ys)"
  by (induction ys) auto

lemma mset_qsort_insert [simp]: "mset (qsort_insert cmp x ys) = add_mset x (mset ys)"
  by (induction ys) auto

lemma mset_qsort [simp]: "mset (qsort cmp xs) = mset xs"
  by (induction xs) (auto simp: qsort_def)

lemma set_qsort [simp]: "set (qsort cmp xs) = set xs"
  by (metis mset_qsort set_mset_mset)

lemma distinct_qsort [simp]: "distinct (qsort cmp xs) = distinct xs"
  by (metis mset_qsort mset_eq_imp_distinct_iff)

lemma successively_qsort_insert:
  "\<forall>a b. cmp a b \<le> 0 \<or> cmp b a \<le> 0 \<Longrightarrow> successively (\<lambda>a b. cmp a b \<le> 0) ys \<Longrightarrow>
   successively (\<lambda>a b. cmp a b \<le> (0::int)) (qsort_insert cmp x ys)"
proof (induction ys rule: induct_list012)
  case 1
  then show ?case by simp
next
  case (2 y)
  then show ?case by (auto simp: not_le) (metis not_le)
next
  case (3 y z zs)
  then show ?case by (auto simp: not_le) (metis not_le)+
qed

lemma successively_qsort:
  "total_order cmp \<Longrightarrow> successively (\<lambda>a b. cmp a b \<le> 0) (qsort cmp xs)"
  by (induction xs) (auto simp: qsort_def total_order_def intro!: successively_qsort_insert)

lemma sort_list_wf:
  assumes w: "wf_list s l xs" and b: "length xs < 2 ^ 31"
  shows "\<exists>s'. sort_list cmp l s = Some (Inr s') \<and> wf_list s' l (qsort cmp xs) \<and> world s' = world s"
proof -
  let ?it = "mark_cycle_pt (set_to_list l s)"
  have "xs \<noteq> [] \<longrightarrow> cursor_at ?it l xs 0 \<and> cycle_pt ?it = Some (hd xs) \<and> \<not> started_cycling ?it"
    using mark_cycle_pt_at [OF set_to_list_at [OF w]] by (auto simp: hd_conv_nth)
  from sort_extract_wf [OF w _ this, of "[]" "length xs"] obtain it1 s1 where
    e: "sort_extract (length xs) ?it s [] = Some (Inr (it1, s1, xs))" "it_list it1 = Some l"
       "wf_list s1 l []" "world s1 = world s" by auto
  have "distinct xs" using w by (cases "xs = []") (auto simp: wf_list_def dll_def)
  then have "distinct (qsort cmp xs)" "set (qsort cmp xs) \<inter> set [] = {}" by auto
  from add_all_to_end_wf [OF e(3) this e(2)] obtain it2 s2 where
    a: "add_all_to_end it1 s1 (qsort cmp xs) = Inr (it2, s2)" "wf_list s2 l (qsort cmp xs)"
       "world s2 = world s1" by auto
  show ?thesis
    using length_list_wf [OF w b] e a by (simp add: sort_list_def)
qed




lemma fst_qsort_insert_traced: "fst (qsort_insert_traced cmp x ys) = qsort_insert cmp x ys"
  by (induction ys) (auto split: prod.splits)

lemma fst_qsort_traced: "fst (qsort_traced cmp xs) = qsort cmp xs"
proof (induction xs)
  case Nil
  then show ?case by (simp add: qsort_def)
next
  case (Cons x xs)
  then show ?case
    using fst_qsort_insert_traced [of cmp x "fst (qsort_traced cmp xs)"]
    by (auto simp: qsort_def split: prod.splits)
qed

lemma sort_traced_sort_list:
  "map_option (map_sum id fst) (sort_traced True cmp l s) = sort_list cmp l s"
  by (auto simp: sort_traced_def sort_list_def Let_def fst_qsort_traced [symmetric]
        split: option.splits sum.splits prod.splits)

lemma sort_traced_empty:
  "list_empty l s \<Longrightarrow> sort_traced allocated cmp l s = Some (Inr (s, []))"
  by (simp add: sort_traced_def length_list_empty sort_extract_empty [of _ l])

lemma qsort_traced_two: "qsort_traced by_id [2, 1] = ([1, 2], [(2, 1)])"
  by (simp add: by_id_def)

subsection \<open>Scanning for the place of a new node\<close>

lemma add_sorted_scan_at:
  assumes w: "wf_list s l xs"
  shows "cursor_at it l xs i \<Longrightarrow> cycle_pt it = Some (xs ! 0) \<Longrightarrow> started_cycling it = (i \<noteq> 0) \<Longrightarrow>
    \<exists>it'. add_sorted_scan cmp new it s = Some (Inr it') \<and> it_list it' = Some l \<and>
      (let k = i + length (takeWhile (\<lambda>e. cmp e new \<le> 0) (drop i xs))
       in if k < length xs then cursor_at it' l xs k \<and> cycled_list it' s = Inr False
          else cycled_list it' s = Inr True)"
proof (induction "length xs - i" arbitrary: i it)
  case 0
  then show ?case by (simp add: cursor_at_def)
next
  case (Suc n)
  then have i: "i < length xs" and ne: "xs \<noteq> []" and il: "it_list it = Some l"
    and cur: "current it = Some (xs ! i)" by (auto simp: cursor_at_def)
  from wf_list_nonempty [OF w ne] have dist: "distinct xs" by simp
  have cyc: "cycled_list it s = Inr False"
    using cursor_at_cycled [OF Suc(3) dist ne w Suc(4)] Suc(5) by auto
  have dr: "drop i xs = xs ! i # drop (Suc i) xs" using i by (simp add: Cons_nth_drop_Suc)
  show ?case
  proof (cases "cmp (xs ! i) new > 0")
    case True
    with cyc cur il i dr Suc(3) show ?thesis
      by (subst add_sorted_scan.simps) (simp add: data_def)
  next
    case False
    from forward_at' [OF w Suc(3)] obtain it' where
      f: "forward it s = Inr (Some (xs ! (Suc i mod length xs)), it')" and
      c': "cursor_at it' l xs (Suc i mod length xs)" and cp: "cycle_pt it' = cycle_pt it"
      and st: "started_cycling it'" by blast
    show ?thesis
    proof (cases "Suc i = length xs")
      case True
      then have c0: "cursor_at it' l xs 0" using c' by simp
      from cursor_at_cycled [OF c0 dist ne w] cp Suc(4) st
      have cy': "cycled_list it' s = Inr True" by simp
      have r: "add_sorted_scan cmp new it' s = Some (Inr it')"
        using cy' by (subst add_sorted_scan.simps) simp
      from c0 have "it_list it' = Some l" by (simp add: cursor_at_def)
      with cyc cur il False f r cy' dr True show ?thesis
        by (subst add_sorted_scan.simps) (simp add: data_def)
    next
      case F2: False
      with i have m: "Suc i mod length xs = Suc i" by simp
      have n: "n = length xs - Suc i" using Suc(2) by simp
      from Suc(1) [OF n] c' m cp Suc(4) st obtain it'' where
        r: "add_sorted_scan cmp new it' s = Some (Inr it'')" "it_list it'' = Some l"
          "(let k = Suc i + length (takeWhile (\<lambda>e. cmp e new \<le> 0) (drop (Suc i) xs))
            in if k < length xs then cursor_at it'' l xs k \<and> cycled_list it'' s = Inr False
               else cycled_list it'' s = Inr True)" by auto
      with cyc cur il False f dr show ?thesis
        by (subst add_sorted_scan.simps) (simp add: data_def Let_def)
    qed
  qed
qed




lemma last_rotate_nth:
  assumes "k < length xs"
  shows "last (drop k xs @ take k xs) = xs ! ((k + length xs - 1) mod length xs)"
proof (cases k)
  case 0
  with assms show ?thesis by (simp add: last_conv_nth)
next
  case (Suc j)
  with assms have "take k xs \<noteq> []" by auto
  moreover have "last (take k xs) = xs ! j" using assms Suc by (simp add: take_Suc_conv_app_nth)
  ultimately show ?thesis using assms Suc by simp
qed

lemma dll_insert_at:
  assumes d: "dll h xs" and new: "new \<notin> set xs" and k: "k < length xs"
    and n1: "next (h' new) = Some (xs ! k)"
    and p1: "prev (h' new) = Some (xs ! ((k + length xs - 1) mod length xs))"
    and p2: "prev (h' (xs ! k)) = Some new"
    and n2: "next (h' (xs ! ((k + length xs - 1) mod length xs))) = Some new"
    and fn: "\<forall>a \<in> set xs. a \<noteq> xs ! ((k + length xs - 1) mod length xs) \<longrightarrow> next (h' a) = next (h a)"
    and fp: "\<forall>a \<in> set xs. a \<noteq> xs ! k \<longrightarrow> prev (h' a) = prev (h a)"
  shows "dll h' (take k xs @ new # drop k xs)"
proof -
  let ?zs = "drop k xs @ take k xs"
  have r: "rotate k xs = ?zs" using k by (simp add: rotate_drop_take)
  with dll_rotate [OF d, of k] have dz: "dll h ?zs" by simp
  have hz: "hd ?zs = xs ! k" using k by (simp add: hd_drop_conv_nth)
  have lz: "last ?zs = xs ! ((k + length xs - 1) mod length xs)" by (rule last_rotate_nth [OF k])
  have sz: "set ?zs = set xs" by (metis r set_rotate)
  have "dll h' (?zs @ [new])"
    by (rule dll_insert [OF dz]) (use new n1 p1 p2 n2 fn fp hz lz sz in auto)
  then have "dll h' (drop k xs @ (take k xs @ [new]))" by simp
  from dll_append_commute [OF this] show ?thesis by simp
qed

lemma add_before_then_move_wf:
  assumes w: "wf_list s l xs" and c: "cursor_at it l xs k" and new: "new \<notin> set xs"
  shows "\<exists>it' s'. add_before_then_move it new s = Inr (it', s') \<and>
           wf_list s' l (take k xs @ new # drop k xs) \<and> world s' = world s"
proof -
  let ?p = "xs ! ((k + length xs - 1) mod length xs)"
  from c have k: "k < length xs" and ne: "xs \<noteq> []" and it: "it_list it = Some l"
    "current it = Some (xs ! k)" "it_prev it = Some ?p" by (auto simp: cursor_at_def)
  from wf_list_nonempty [OF w ne] have la: "last_of s l = Some (last xs)"
    and d: "dll (links s) xs" by auto
  have "(k + length xs - 1) mod length xs < length xs" by (intro mod_less_divisor) (use ne in simp)
  then have m: "?p \<in> set xs" "xs ! k \<in> set xs" using k nth_mem by blast+
  with new have neq: "new \<noteq> ?p" "new \<noteq> xs ! k" by auto
  obtain h' where st: "store (links s) [(Next, Some ?p, Some new), (Prev, Some new, Some ?p),
                       (Next, Some new, Some (xs ! k)), (Prev, Some (xs ! k), Some new)] = Some h'"
    and p: "next (h' new) = Some (xs ! k)" "prev (h' new) = Some ?p"
       "prev (h' (xs ! k)) = Some new" "next (h' ?p) = Some new"
       "\<forall>a \<in> set xs. a \<noteq> ?p \<longrightarrow> next (h' a) = next (links s a)"
       "\<forall>a \<in> set xs. a \<noteq> xs ! k \<longrightarrow> prev (h' a) = prev (links s a)"
    using neq new by auto
  from dll_insert_at [OF d new k p] have "dll h' (take k xs @ new # drop k xs)" .
  moreover have "last (take k xs @ new # drop k xs) = last xs" using k by simp
  ultimately show ?thesis using la st it
    by (simp add: add_before_then_move_def wf_list_def list_empty_def)
qed

lemma add_sorted_wf:
  assumes w: "wf_list s l xs" and new: "new \<notin> set xs"
  shows "\<exists>s'. add_sorted cmp l new s = Some (Inr s') \<and> world s' = world s \<and>
           wf_list s' l
             (if xs = [] \<or> cmp (last xs) new < 0 then xs @ [new]
              else takeWhile (\<lambda>e. cmp e new \<le> 0) xs @ new # dropWhile (\<lambda>e. cmp e new \<le> 0) xs)"
proof (cases "xs = []")
  case True
  with w show ?thesis by (simp add: add_sorted_def wf_list_def dll_singleton)
next
  case False
  from wf_list_nonempty [OF w False] have la: "last_of s l = Some (last xs)"
    and d: "dll (links s) xs" by auto
  show ?thesis
  proof (cases "cmp (last xs) new < 0")
    case True
    from dll_head [OF d] have hd: "next (links s (last xs)) = Some (hd xs)" by simp
    have m: "last xs \<in> set xs" "hd xs \<in> set xs" using False by auto
    with new have neq: "new \<noteq> last xs" "new \<noteq> hd xs" by auto
    obtain h1 h' where s1: "store (links s) [(Next, Some new, Some (hd xs)), (Prev, Some new, Some (last xs)),
                          (Next, Some (last xs), Some new)] = Some h1" and n1: "next (h1 new) = Some (hd xs)"
      and s2: "store h1 [(Prev, Some (hd xs), Some new)] = Some h'"
      and p: "next (h' new) = Some (hd xs)" "prev (h' new) = Some (last xs)"
       "prev (h' (hd xs)) = Some new" "next (h' (last xs)) = Some new"
       "\<forall>a \<in> set xs. a \<noteq> last xs \<longrightarrow> next (h' a) = next (links s a)"
       "\<forall>a \<in> set xs. a \<noteq> hd xs \<longrightarrow> prev (h' a) = prev (links s a)"
      using neq new by auto
    from dll_insert [OF d new p] have "dll h' (xs @ [new])" .
    with la hd s1 n1 s2 True False show ?thesis
      by (simp add: add_sorted_def wf_list_def)
  next
    case F: False
    let ?it = "mark_cycle_pt (set_to_list l s)"
    let ?k = "length (takeWhile (\<lambda>e. cmp e new \<le> 0) xs)"
    from mark_cycle_pt_at [OF set_to_list_at [OF w False]]
    have c: "cursor_at ?it l xs 0" and cp: "cycle_pt ?it = Some (xs ! 0)" and st: "\<not> started_cycling ?it"
      by auto
    from add_sorted_scan_at [OF w c cp, of cmp new] st obtain it' where
      sc: "add_sorted_scan cmp new ?it s = Some (Inr it')" and il: "it_list it' = Some l" and
      k: "if ?k < length xs then cursor_at it' l xs ?k \<and> cycled_list it' s = Inr False
          else cycled_list it' s = Inr True" by (auto simp: Let_def)
    show ?thesis
    proof (cases "?k < length xs")
      case True
      with k have c': "cursor_at it' l xs ?k" and cy: "cycled_list it' s = Inr False" by auto
      from add_before_then_move_wf [OF w c' new] obtain it2 s2 where
        a: "add_before_then_move it' new s = Inr (it2, s2)"
           "wf_list s2 l (take ?k xs @ new # drop ?k xs)" "world s2 = world s" by blast
      have "take ?k xs = takeWhile (\<lambda>e. cmp e new \<le> 0) xs" "drop ?k xs = dropWhile (\<lambda>e. cmp e new \<le> 0) xs"
        by (simp_all add: takeWhile_eq_take [symmetric] dropWhile_eq_drop [symmetric])
      with a la F False sc cy show ?thesis by (simp add: add_sorted_def)
    next
      case F3: False
      with k have cy: "cycled_list it' s = Inr True" by simp
      from F3 have "?k = length xs" using length_takeWhile_le [of "\<lambda>e. cmp e new \<le> 0" xs] by simp
      then have tw: "takeWhile (\<lambda>e. cmp e new \<le> 0) xs = xs" "dropWhile (\<lambda>e. cmp e new \<le> 0) xs = []"
        by (metis takeWhile_eq_take take_all order_refl, metis dropWhile_eq_drop drop_all order_refl)
      from add_to_end_wf [OF w new il] obtain it2 s2 where
        a: "add_to_end it' new s = Inr (it2, s2)" "wf_list s2 l (xs @ [new])" "world s2 = world s"
        by blast
      from a(2) have "wf_list s2 l (takeWhile (\<lambda>e. cmp e new \<le> 0) xs @ new # dropWhile (\<lambda>e. cmp e new \<le> 0) xs)"
        by (simp only: tw)
      with a(1,3) la F False sc cy show ?thesis by (simp add: add_sorted_def)
    qed
  qed
qed




subsection \<open>Order after an insertion\<close>

lemma total_order_transp: "total_order cmp \<Longrightarrow> transp (\<lambda>a b. cmp a b \<le> 0)"
  by (auto simp: total_order_def intro!: transpI)

lemma total_order_sorted:
  "total_order cmp \<Longrightarrow> successively (\<lambda>a b. cmp a b \<le> 0) xs = sorted_wrt (\<lambda>a b. cmp a b \<le> 0) xs"
  by (rule successively_conv_sorted_wrt [OF total_order_transp])

lemma sorted_insert_props:
  fixes new :: addr
  assumes t: "total_order cmp" and s: "successively (\<lambda>a b. cmp a b \<le> 0) xs"
  defines "ys \<equiv> takeWhile (\<lambda>e. cmp e new \<le> 0) xs" and "zs \<equiv> dropWhile (\<lambda>e. cmp e new \<le> 0) xs"
  shows "(xs \<noteq> [] \<and> cmp (last xs) new < 0 \<longrightarrow> ys = xs \<and> zs = [])"
    and "\<forall>e \<in> set ys. cmp e new \<le> 0" and "\<forall>e \<in> set zs. 0 < cmp e new"
    and "successively (\<lambda>a b. cmp a b \<le> 0) (ys @ new # zs)"
proof -
  let ?le = "\<lambda>a b. cmp a b \<le> 0"
  from t have tot: "\<And>a b. ?le a b \<or> ?le b a" and tr: "\<And>a b c. ?le a b \<Longrightarrow> ?le b c \<Longrightarrow> ?le a c"
    by (auto simp: total_order_def)
  from s have sw: "sorted_wrt ?le xs" by (simp add: total_order_sorted [OF t])
  have xs: "xs = ys @ zs" by (simp add: ys_def zs_def)
  show a: "\<forall>e \<in> set ys. cmp e new \<le> 0" unfolding ys_def by (auto dest: set_takeWhileD)
  show b: "\<forall>e \<in> set zs. 0 < cmp e new"
  proof
    fix e assume e: "e \<in> set zs"
    then have ne: "zs \<noteq> []" by auto
    then have h: "\<not> ?le (hd zs) new" unfolding zs_def by (metis hd_dropWhile)
    from sw xs have "sorted_wrt ?le zs" by (simp add: sorted_wrt_append)
    with e ne have "e = hd zs \<or> ?le (hd zs) e" by (cases zs) auto
    with h tr [of "hd zs" e new] show "0 < cmp e new" by (cases "cmp e new \<le> 0") auto
  qed
  show "xs \<noteq> [] \<and> cmp (last xs) new < 0 \<longrightarrow> ys = xs \<and> zs = []"
  proof
    assume c: "xs \<noteq> [] \<and> cmp (last xs) new < 0"
    have "\<forall>e \<in> set xs. ?le e new"
    proof
      fix e assume "e \<in> set xs"
      with c sw have "e = last xs \<or> ?le e (last xs)"
        by (cases xs rule: rev_cases) (auto simp: sorted_wrt_append)
      with c tr [of e "last xs" new] show "?le e new" by auto
    qed
    then show "ys = xs \<and> zs = []" by (simp add: ys_def zs_def)
  qed
  from sw xs have sy: "sorted_wrt ?le ys" and sz: "sorted_wrt ?le zs"
    by (simp_all add: sorted_wrt_append)
  have "sorted_wrt ?le (ys @ new # zs)"
    using sy sz a b tot tr by (auto simp: sorted_wrt_append) (metis not_le)+
  then show "successively ?le (ys @ new # zs)" by (simp add: total_order_sorted [OF t])
qed

lemma add_sorted_sorted:
  assumes t: "total_order cmp" and w: "wf_list s l xs" and s: "successively (\<lambda>a b. cmp a b \<le> 0) xs"
    and new: "new \<notin> set xs"
  shows "\<exists>s' ys zs. add_sorted cmp l new s = Some (Inr s') \<and> world s' = world s \<and> xs = ys @ zs \<and>
           wf_list s' l (ys @ new # zs) \<and> successively (\<lambda>a b. cmp a b \<le> 0) (ys @ new # zs) \<and>
           (\<forall>e \<in> set ys. cmp e new \<le> 0) \<and> (\<forall>e \<in> set zs. 0 < cmp e new)"
proof -
  let ?ys = "takeWhile (\<lambda>e. cmp e new \<le> 0) xs" and ?zs = "dropWhile (\<lambda>e. cmp e new \<le> 0) xs"
  from add_sorted_wf [OF w new, of cmp] obtain s' where
    a: "add_sorted cmp l new s = Some (Inr s')" "world s' = world s"
       "wf_list s' l (if xs = [] \<or> cmp (last xs) new < 0 then xs @ [new] else ?ys @ new # ?zs)"
    by blast
  have "(if xs = [] \<or> cmp (last xs) new < 0 then xs @ [new] else ?ys @ new # ?zs) = ?ys @ new # ?zs"
    using sorted_insert_props(1) [OF t s, of new] by (cases "xs = []") (auto simp del: takeWhile_eq_all_conv dropWhile_eq_Nil_conv)
  with a(3) have "wf_list s' l (?ys @ new # ?zs)" by simp
  moreover have "xs = ?ys @ ?zs" by simp
  ultimately show ?thesis using a(1,2) sorted_insert_props(2-4) [OF t s, of new] by blast
qed

lemma add_sorted_all_wf:
  "total_order cmp \<Longrightarrow> wf_list s l xs \<Longrightarrow> successively (\<lambda>a b. cmp a b \<le> 0) xs \<Longrightarrow>
   distinct ps \<Longrightarrow> set ps \<inter> set xs = {} \<Longrightarrow>
   \<exists>s' ys. add_sorted_all cmp l ps s = Some (Inr s') \<and> world s' = world s \<and> wf_list s' l ys \<and>
     mset ys = mset xs + mset ps \<and> successively (\<lambda>a b. cmp a b \<le> 0) ys"
proof (induction ps arbitrary: s xs)
  case Nil
  then show ?case by auto
next
  case (Cons p ps)
  from Cons.prems have "p \<notin> set xs" by auto
  from add_sorted_sorted [OF Cons.prems(1-3) this] obtain s1 ys zs where
    a: "add_sorted cmp l p s = Some (Inr s1)" "world s1 = world s" "xs = ys @ zs"
       "wf_list s1 l (ys @ p # zs)" "successively (\<lambda>a b. cmp a b \<le> 0) (ys @ p # zs)" by blast
  from Cons.prems a(3) have "distinct ps" "set ps \<inter> set (ys @ p # zs) = {}" by auto
  from Cons.IH [OF Cons.prems(1) a(4,5) this] a(1,2,3) show ?case by auto
qed

subsection \<open>Cutting a sublist out\<close>

lemma sublist_walk_at:
  assumes w: "wf_list s l xs" and j: "j < length xs"
  shows "cursor_at temp l xs k \<Longrightarrow> i \<le> k \<Longrightarrow> k \<le> j \<Longrightarrow> cycle_pt temp = Some (xs ! i) \<Longrightarrow>
         started_cycling temp = (k \<noteq> i) \<Longrightarrow> it_prev this \<noteq> None \<Longrightarrow>
         current other = Some (xs ! j) \<Longrightarrow>
    \<exists>this' other'.
      sublist_walk l this other temp s =
        Some (Inr (this', other',
                   if j = length xs - 1 then s\<lparr>last_of := (last_of s)(l := it_prev this)\<rparr> else s)) \<and>
      this'\<lparr>ex_current_was_last := False, ex_current_was_cycle_pt := False\<rparr>
        = this\<lparr>ex_current_was_last := False, ex_current_was_cycle_pt := False\<rparr> \<and>
      other'\<lparr>ex_current_was_last := False, ex_current_was_cycle_pt := False\<rparr>
        = other\<lparr>ex_current_was_last := False, ex_current_was_cycle_pt := False\<rparr>"
proof (induction "j - k" arbitrary: k temp this other)
  case 0
  then have kj: "k = j" by simp
  from j have ne: "xs \<noteq> []" by auto
  from wf_list_nonempty [OF w ne] have la: "last_of s l = Some (last xs)"
    and d: "dll (links s) xs" and dist: "distinct xs" by auto
  from 0 have il: "it_list temp = Some l" and cur: "current temp = Some (xs ! k)"
    by (auto simp: cursor_at_def)
  have cyc: "cycled_list temp s = Inr False"
    using il cur 0(5,6) 0(3) j kj dist la
    by (auto simp: cycled_list_def list_empty_def nth_eq_iff_index_eq)
  have al: "at_last temp s = Inr (k = length xs - 1)"
    using il cur la ne j kj dist
    by (auto simp: at_last_def list_empty_def last_conv_nth nth_eq_iff_index_eq)
  let ?s1 = "if k = length xs - 1 then s\<lparr>last_of := (last_of s)(l := it_prev this)\<rparr> else s"
  have d1: "dll (links ?s1) xs" "\<not> list_empty l ?s1"
    using d la 0(7) by (auto simp: list_empty_def)
  from forward_dll [OF d1 0(2)]
  have f: "forward temp ?s1 = Inr (Some (xs ! (Suc k mod length xs)),
                temp\<lparr>it_prev := Some (xs ! k), started_cycling := True,
                   current := Some (xs ! (Suc k mod length xs)),
                   it_next := Some (xs ! (Suc (Suc k mod length xs) mod length xs))\<rparr>)" .
  show ?case
    apply (subst sublist_walk.simps)
    using cyc al f 0(8) kj
    apply (simp add: Let_def)
    done
next
  case (Suc m)
  then have kj: "k < j" by simp
  from j have ne: "xs \<noteq> []" by auto
  from wf_list_nonempty [OF w ne] have la: "last_of s l = Some (last xs)"
    and d: "dll (links s) xs" and dist: "distinct xs" by auto
  from Suc have il: "it_list temp = Some l" and cur: "current temp = Some (xs ! k)"
    by (auto simp: cursor_at_def)
  have cyc: "cycled_list temp s = Inr False"
    using il cur Suc(6,7) Suc(4) j kj dist la
    by (auto simp: cycled_list_def list_empty_def nth_eq_iff_index_eq)
  have al: "at_last temp s = Inr False"
    using il cur la ne j kj dist
    by (auto simp: at_last_def list_empty_def last_conv_nth nth_eq_iff_index_eq)
  have d1: "dll (links s) xs" "\<not> list_empty l s"
    using d la by (auto simp: list_empty_def)
  have m: "Suc k mod length xs = Suc k" using kj j by simp
  let ?temp' = "temp\<lparr>it_prev := Some (xs ! k), started_cycling := True,
                   current := Some (xs ! Suc k),
                   it_next := Some (xs ! (Suc (Suc k) mod length xs))\<rparr>"
  from forward_dll [OF d1 Suc(3)] m
  have f: "forward temp s = Inr (Some (xs ! Suc k), ?temp')" by simp
  have c': "cursor_at ?temp' l xs (Suc k)"
    using Suc(3) kj j by (simp add: cursor_at_def)
  let ?this2 = "if current temp = cycle_pt this then this\<lparr>ex_current_was_cycle_pt := True\<rparr> else this"
  let ?other2 = "if current temp = cycle_pt other then other\<lparr>ex_current_was_cycle_pt := True\<rparr> else other"
  have "\<exists>this' other'.
      sublist_walk l ?this2 ?other2 ?temp' s =
        Some (Inr (this', other',
                   if j = length xs - 1 then s\<lparr>last_of := (last_of s)(l := it_prev ?this2)\<rparr> else s)) \<and>
      this'\<lparr>ex_current_was_last := False, ex_current_was_cycle_pt := False\<rparr>
        = ?this2\<lparr>ex_current_was_last := False, ex_current_was_cycle_pt := False\<rparr> \<and>
      other'\<lparr>ex_current_was_last := False, ex_current_was_cycle_pt := False\<rparr>
        = ?other2\<lparr>ex_current_was_last := False, ex_current_was_cycle_pt := False\<rparr>"
    using Suc(2,4,6,8,9) kj
    by (intro Suc(1) [OF _ c']) auto
  moreover have "xs ! k \<noteq> xs ! j" using kj j dist by (simp add: nth_eq_iff_index_eq)
  ultimately show ?case
    apply (subst sublist_walk.simps)
    using cyc al f Suc(9)
    apply (simp add: Let_def)
    apply auto
    done
qed

lemma split3:
  assumes "i \<le> j" "j < length xs"
  shows "xs = take i xs @ take (Suc j - i) (drop i xs) @ drop (Suc j) xs"
    and "take (Suc j - i) (drop i xs) \<noteq> []"
    and "hd (take (Suc j - i) (drop i xs)) = xs ! i"
    and "last (take (Suc j - i) (drop i xs)) = xs ! j"
    and "length (take (Suc j - i) (drop i xs)) = j - i + 1"
proof -
  have "take (Suc j - i) (drop i xs) @ drop (Suc j) xs = drop i xs"
    using assms by (metis append_take_drop_id drop_drop le_SucI le_add_diff_inverse2)
  then show "xs = take i xs @ take (Suc j - i) (drop i xs) @ drop (Suc j) xs" by simp
  show ne: "take (Suc j - i) (drop i xs) \<noteq> []" using assms by auto
  show "hd (take (Suc j - i) (drop i xs)) = xs ! i"
    using assms by (simp add: hd_conv_nth ne hd_drop_conv_nth)
  show "length (take (Suc j - i) (drop i xs)) = j - i + 1" using assms by auto
  then show "last (take (Suc j - i) (drop i xs)) = xs ! j"
    using assms ne by (simp add: last_conv_nth)
qed

lemma pred_in_rest:
  assumes "i \<le> j" "j < length xs" "\<not> (i = 0 \<and> j = length xs - 1)"
  shows "xs ! ((i + length xs - 1) mod length xs) = last (drop (Suc j) xs @ take i xs)"
proof (cases i)
  case 0
  with assms have sj: "Suc j < length xs" by auto
  then have ne: "xs \<noteq> []" by auto
  from sj have "last (drop (Suc j) xs) = last xs" by simp
  also have "\<dots> = xs ! (length xs - 1)" using ne by (simp add: last_conv_nth)
  finally show ?thesis using 0 sj by simp
next
  case (Suc k)
  with assms have "take i xs \<noteq> []" by auto
  moreover have "last (take i xs) = xs ! k" using assms Suc by (simp add: take_Suc_conv_app_nth)
  ultimately show ?thesis using assms Suc by simp
qed

lemma succ_in_rest:
  assumes "i \<le> j" "j < length xs" "\<not> (i = 0 \<and> j = length xs - 1)"
  shows "xs ! (Suc j mod length xs) = hd (drop (Suc j) xs @ take i xs)"
proof (cases "Suc j = length xs")
  case True
  with assms have "0 < i" by auto
  moreover from assms have "xs \<noteq> []" by auto
  ultimately show ?thesis using True assms by (simp add: hd_conv_nth)
next
  case False
  with assms have "Suc j < length xs" by auto
  then show ?thesis by (simp add: hd_drop_conv_nth)
qed

lemma whole_iff:
  assumes "i \<le> j" "j < length xs" "distinct xs"
  shows "(xs ! ((i + length xs - 1) mod length xs) = xs ! j) = (i = 0 \<and> j = length xs - 1)"
proof -
  from assms have "0 < length xs" by auto
  then have "(i + length xs - 1) mod length xs < length xs" by (rule mod_less_divisor)
  then have "(xs ! ((i + length xs - 1) mod length xs) = xs ! j) = ((i + length xs - 1) mod length xs = j)"
    using assms by (simp add: nth_eq_iff_index_eq)
  also have "\<dots> = (i = 0 \<and> j = length xs - 1)"
    using assms by (cases i) auto
  finally show ?thesis .
qed

lemma flags_reset_eq:
  assumes "a\<lparr>ex_current_was_last := False, ex_current_was_cycle_pt := False\<rparr>
         = b\<lparr>ex_current_was_last := x, ex_current_was_cycle_pt := y\<rparr>\<lparr>ex_current_was_last := False, ex_current_was_cycle_pt := False\<rparr>"
  shows "it_list a = it_list b" "it_prev a = it_prev b" "current a = current b" "it_next a = it_next b"
proof -
  from assms have e: "a\<lparr>ex_current_was_last := False, ex_current_was_cycle_pt := False\<rparr>
         = b\<lparr>ex_current_was_last := False, ex_current_was_cycle_pt := False\<rparr>" by simp
  from arg_cong [OF e, of it_list] show "it_list a = it_list b" by simp
  from arg_cong [OF e, of it_prev] show "it_prev a = it_prev b" by simp
  from arg_cong [OF e, of current] show "current a = current b" by simp
  from arg_cong [OF e, of it_next] show "it_next a = it_next b" by simp
qed

lemma extract_sublist_wf:
  assumes w: "wf_list s l xs" and ct: "cursor_at this l xs i" and co: "cursor_at other l xs j"
    and ij: "i \<le> j"
  defines "rest \<equiv> take i xs @ drop (Suc j) xs" and "sub \<equiv> take (Suc j - i) (drop i xs)"
  shows "\<exists>this' other' s'.
           extract_sublist this other s = Some (Inr (xs ! j, this', other', s')) \<and>
           world s' = world s \<and> wf_list s' l rest \<and> dll (links s') sub \<and>
           current this' = None \<and> current other' = None \<and>
           (if rest = [] then it_prev this' = None \<and> it_next this' = None \<and>
                              it_prev other' = None \<and> it_next other' = None
            else it_prev this' = it_prev this \<and> it_next this' = it_next other \<and>
                 it_prev other' = it_prev this \<and> it_next other' = it_next other)"
proof -
  let ?n = "length xs"
  let ?P = "xs ! ((i + ?n - 1) mod ?n)" and ?S = "xs ! (Suc j mod ?n)"
  let ?rest' = "drop (Suc j) xs @ take i xs"
  from co have j: "j < ?n" and ne: "xs \<noteq> []" by (auto simp: cursor_at_def)
  from wf_list_nonempty [OF w ne] have la: "last_of s l = Some (last xs)"
    and d: "dll (links s) xs" and dist: "distinct xs" by auto
  from ct have t: "it_list this = Some l" "current this = Some (xs ! i)" "it_prev this = Some ?P"
    by (auto simp: cursor_at_def)
  from co have o: "it_list other = Some l" "current other = Some (xs ! j)" "it_next other = Some ?S"
    by (auto simp: cursor_at_def)
  note sp = split3 [OF ij j, folded sub_def]
  have xs: "xs = take i xs @ sub @ drop (Suc j) xs" by (rule sp(1))
  have mem: "xs ! i \<in> set sub" "xs ! j \<in> set sub"
    using sp(2,3,4) by (metis hd_in_set, metis last_in_set)
  have disj: "set sub \<inter> set ?rest' = {}" using dist xs
    by (metis (no_types, lifting) Int_Un_distrib Un_empty distinct_append inf_commute set_append)
  let ?temp = "mark_cycle_pt this"
  let ?tz = "this\<lparr>ex_current_was_last := False, ex_current_was_cycle_pt := False\<rparr>"
  let ?oz = "other\<lparr>ex_current_was_last := False, ex_current_was_cycle_pt := False\<rparr>"
  let ?sw = "if j = ?n - 1 then s\<lparr>last_of := (last_of s)(l := it_prev ?tz)\<rparr> else s"
  from mark_cycle_pt_at [OF ct] have tm: "cursor_at ?temp l xs i" "cycle_pt ?temp = Some (xs ! i)"
    "started_cycling ?temp = (i \<noteq> i)" by auto
  from sublist_walk_at [OF w j tm(1) order_refl ij tm(2,3), of ?tz ?oz] t o
  obtain this1 other1 where
    wk: "sublist_walk l ?tz ?oz ?temp s = Some (Inr (this1, other1, ?sw))"
    and e1: "this1\<lparr>ex_current_was_last := False, ex_current_was_cycle_pt := False\<rparr>
        = ?tz\<lparr>ex_current_was_last := False, ex_current_was_cycle_pt := False\<rparr>"
    and e2: "other1\<lparr>ex_current_was_last := False, ex_current_was_cycle_pt := False\<rparr>
        = ?oz\<lparr>ex_current_was_last := False, ex_current_was_cycle_pt := False\<rparr>"
    by auto
  note t1 = flags_reset_eq [OF e1] and o1 = flags_reset_eq [OF e2]
  have ls1: "links ?sw = links s" "world ?sw = world s" by auto
  have pre: "\<not> list_empty l s" using la by (simp add: list_empty_def)
  show ?thesis
  proof (cases "i = 0 \<and> j = ?n - 1")
    case True
    then have r: "rest = []" and sb: "sub = xs" using ne by (auto simp: rest_def sub_def)
    obtain h where st: "store (links s) [(Next, Some (xs ! j), Some (xs ! i)), (Prev, Some (xs ! i), Some (xs ! j))] = Some h"
      and p: "next (h (xs ! j)) = Some (xs ! i)" "prev (h (xs ! i)) = Some (xs ! j)"
        "\<forall>a. a \<noteq> xs ! j \<longrightarrow> next (h a) = next (links s a)"
        "\<forall>a. a \<noteq> xs ! i \<longrightarrow> prev (h a) = prev (links s a)"
      by auto
    have "dll h xs"
    proof (rule dll_close [of "links s" "[]" xs h])
      show "dll (links s) ([] @ xs)" using d by simp
    qed (use ne p True in \<open>auto simp: last_conv_nth hd_conv_nth\<close>)
    moreover have "it_prev this1 = Some (xs ! j)"
      using t1(2) t(3) whole_iff [OF ij j dist] True by simp
    ultimately show ?thesis
      using t o wk st pre r sb ls1
      by (simp add: extract_sublist_def wf_list_def del: store.simps)
  next
    case False
    have P: "?P = last ?rest'" by (rule pred_in_rest [OF ij j False])
    have S: "?S = hd ?rest'" by (rule succ_in_rest [OF ij j False])
    have rne: "?rest' \<noteq> []" using False ij j by auto
    then have r: "rest \<noteq> []" by (auto simp: rest_def)
    from rne P S have mem': "?P \<in> set ?rest'" "?S \<in> set ?rest'"
      by (metis last_in_set, metis hd_in_set)
    have neq: "?P \<noteq> xs ! j" "?P \<noteq> xs ! i" "?S \<noteq> xs ! i" "?S \<noteq> xs ! j"
      using mem mem' disj by auto
    have np: "it_prev this1 \<noteq> Some (xs ! j)" using t1(2) t(3) neq by simp
    obtain h h' where st: "store (links s) [(Next, Some (xs ! j), Some (xs ! i)), (Prev, Some (xs ! i), Some (xs ! j))] = Some h"
      and st': "store h [(Next, Some ?P, Some ?S), (Prev, Some ?S, Some ?P)] = Some h'"
      and p: "next (h' (xs ! j)) = Some (xs ! i)" "prev (h' (xs ! i)) = Some (xs ! j)"
        "next (h' ?P) = Some ?S" "prev (h' ?S) = Some ?P"
        "\<forall>a. a \<noteq> xs ! j \<longrightarrow> a \<noteq> ?P \<longrightarrow> next (h' a) = next (links s a)"
        "\<forall>a. a \<noteq> xs ! i \<longrightarrow> a \<noteq> ?S \<longrightarrow> prev (h' a) = prev (links s a)"
      using neq by auto
    from d xs have "dll (links s) (take i xs @ (sub @ drop (Suc j) xs))" by simp
    from dll_append_commute [OF this] have d2: "dll (links s) (sub @ ?rest')" by simp
    have nr: "\<And>a. a \<in> set ?rest' \<Longrightarrow> a \<noteq> xs ! j \<and> a \<noteq> xs ! i"
      using mem disj by blast
    have ns: "\<And>a. a \<in> set sub \<Longrightarrow> a \<noteq> ?P \<and> a \<noteq> ?S"
      using mem' disj by blast
    have "dll h' ?rest'"
    proof (rule dll_close [OF d2 rne])
      show "next (h' (last ?rest')) = Some (hd ?rest')" using p(3) unfolding P S .
      show "prev (h' (hd ?rest')) = Some (last ?rest')" using p(4) unfolding P S .
      show "\<forall>a\<in>set ?rest'. a \<noteq> last ?rest' \<longrightarrow> next (h' a) = next (links s a)"
        using p(5) nr unfolding P by blast
      show "\<forall>a\<in>set ?rest'. a \<noteq> hd ?rest' \<longrightarrow> prev (h' a) = prev (links s a)"
        using p(6) nr unfolding S by blast
    qed
    from dll_append_commute [OF this] have dr: "dll h' rest" by (simp add: rest_def)
    from dll_append_commute [OF d2] have d3: "dll (links s) (?rest' @ sub)" .
    have ds: "dll h' sub"
    proof (rule dll_close [OF d3 sp(2)])
      show "next (h' (last sub)) = Some (hd sub)" using p(1) unfolding sp(3,4) .
      show "prev (h' (hd sub)) = Some (last sub)" using p(2) unfolding sp(3,4) .
      show "\<forall>a\<in>set sub. a \<noteq> last sub \<longrightarrow> next (h' a) = next (links s a)"
        using p(5) ns unfolding sp(4) by blast
      show "\<forall>a\<in>set sub. a \<noteq> hd sub \<longrightarrow> prev (h' a) = prev (links s a)"
        using p(6) ns unfolding sp(3) by blast
    qed
    have lr: "last_of ?sw l = Some (last rest)"
    proof (cases "j = ?n - 1")
      case True
      then have "drop (Suc j) xs = []" using ne by simp
      with True P t(3) show ?thesis by (simp add: rest_def)
    next
      case F: False
      then have "Suc j < ?n" using j by simp
      then have "drop (Suc j) xs \<noteq> []" "last (drop (Suc j) xs) = last xs" by (simp_all add: last_drop)
      with F la show ?thesis by (simp add: rest_def)
    qed
    show ?thesis
      using t o wk st st' pre r ls1 np t1 o1 dr ds lr
      by (simp add: extract_sublist_def wf_list_def del: store.simps)
  qed
qed

subsection \<open>Walking the detached chain\<close>

lemma clear_loop_chain:
  assumes z: "\<forall>p s a. a \<noteq> p \<longrightarrow> next (links (zapper p s) a) = next (links s a)"
  shows "distinct xs \<Longrightarrow>
    (\<forall>k < length xs. next (links s (xs ! k)) = (if Suc k < length xs then Some (xs ! Suc k) else None)) \<Longrightarrow>
    clear_loop zapper (if xs = [] then None else Some (hd xs)) s = Some (foldl (\<lambda>s p. zapper p s) s xs)"
proof (induction xs arbitrary: s)
  case Nil
  show ?case by (subst clear_loop.simps) simp
next
  case (Cons x ys)
  from Cons.prems(2) have n0: "next (links s x) = (if ys = [] then None else Some (hd ys))"
    by (cases ys) auto
  have "\<forall>k < length ys. next (links (zapper x s) (ys ! k)) = (if Suc k < length ys then Some (ys ! Suc k) else None)"
  proof (intro allI impI)
    fix k assume k: "k < length ys"
    with Cons.prems(1) have "ys ! k \<noteq> x" by auto
    with z have "next (links (zapper x s) (ys ! k)) = next (links s (ys ! k))" by simp
    also have "\<dots> = (if Suc k < length ys then Some (ys ! Suc k) else None)"
      using Cons.prems(2) k by (auto dest: spec [of _ "Suc k"])
    finally show "next (links (zapper x s) (ys ! k)) = (if Suc k < length ys then Some (ys ! Suc k) else None)" .
  qed
  with Cons.IH [of "zapper x s"] Cons.prems(1)
  have "clear_loop zapper (if ys = [] then None else Some (hd ys)) (zapper x s)
          = Some (foldl (\<lambda>s p. zapper p s) (zapper x s) ys)" by simp
  with n0 show ?case by (subst clear_loop.simps) simp
qed

lemma foldl_zapper_last_of:
  "\<forall>p s. last_of (zapper p s) l = last_of s l \<Longrightarrow>
   last_of (foldl (\<lambda>s p. zapper p s) s xs) l = last_of s l"
  by (induction xs arbitrary: s) auto

lemma internal_clear_wf:
  assumes w: "wf_list s l xs"
    and z: "\<forall>p s a. a \<noteq> p \<longrightarrow> next (links (zapper p s) a) = next (links s a)"
  shows "internal_clear zapper l s =
           Some (foldl (\<lambda>s p. zapper p s)
                   (if xs = [] then s
                    else s\<lparr>links := (links s)(last xs := (links s (last xs))\<lparr>next := None\<rparr>),
                           last_of := (last_of s)(l := None)\<rparr>) xs)"
proof (cases "xs = []")
  case True
  with w show ?thesis by (simp add: internal_clear_def wf_list_def list_empty_def)
next
  case False
  let ?n = "length xs"
  let ?s1 = "s\<lparr>links := (links s)(last xs := (links s (last xs))\<lparr>next := None\<rparr>),
               last_of := (last_of s)(l := None)\<rparr>"
  from wf_list_nonempty [OF w False] have la: "last_of s l = Some (last xs)"
    and d: "dll (links s) xs" and dist: "distinct xs" by auto
  from dll_head [OF d] have hd: "next (links s (last xs)) = Some (hd xs)" by simp
  have "\<forall>k < ?n. next (links ?s1 (xs ! k)) = (if Suc k < ?n then Some (xs ! Suc k) else None)"
  proof (intro allI impI)
    fix k assume k: "k < ?n"
    show "next (links ?s1 (xs ! k)) = (if Suc k < ?n then Some (xs ! Suc k) else None)"
    proof (cases "Suc k < ?n")
      case True
      with dist k have "xs ! k \<noteq> last xs"
        using False by (simp add: last_conv_nth nth_eq_iff_index_eq)
      with dll_next [OF d k] True show ?thesis by simp
    next
      case F: False
      with k have "k = ?n - 1" by simp
      with False F show ?thesis by (simp add: last_conv_nth)
    qed
  qed
  from clear_loop_chain [OF z dist this] False la hd show ?thesis
    by (simp add: internal_clear_def list_empty_def)
qed

section \<open>Circularity\<close>

text \<open>
  C1. The circle does not survive every operation: \<open>exchange\<close> breaks it when one of
  the two lists has a single node. The singleton list \<open>[D]\<close> (list 1) and the list
  \<open>[A, B, C]\<close> (list 0) are both circular, this cursor stands on \<open>D\<close> and the other on
  \<open>B\<close>. After \<open>exchange\<close> the \<open>last\<close> of list 1 is \<open>B\<close>, whose \<open>prev\<close> is \<open>D\<close>, while the
  \<open>next\<close> of \<open>D\<close> is \<open>C\<close>: walking \<open>next\<close> from \<open>last->next\<close> never returns to \<open>last\<close>, and
  no sequence of nodes describes list 1.
\<close>

theorem exchange_singleton_breaks_circle:
  "wf_list two_lists_state 0 [1, 2, 3] \<and> wf_list two_lists_state 1 [4] \<and>
   cursor_at (cursor 1 4 (Some 4) 4 None) 1 [4] 0 \<and>
   cursor_at (cursor 0 1 (Some 2) 3 None) 0 [1, 2, 3] 1 \<and>
   exchange (cursor 1 4 (Some 4) 4 None) (cursor 0 1 (Some 2) 3 None) two_lists_state
     = Inr (cursor 1 4 (Some 2) 4 None, cursor 0 1 (Some 4) 3 None, two_lists_exchanged) \<and>
   \<not> (\<exists>xs. wf_list two_lists_exchanged 1 xs)"
proof -
  have a: "wf_list two_lists_state 0 [1, 2, 3] \<and> wf_list two_lists_state 1 [4] \<and>
    cursor_at (cursor 1 4 (Some 4) 4 None) 1 [4] 0 \<and>
    cursor_at (cursor 0 1 (Some 2) 3 None) 0 [1, 2, 3] 1"
    by (simp add: wf_list_def dll_def two_lists_state_def two_lists_links_def cursor_at_def cursor_def)
  have e: "exchange (cursor 1 4 (Some 4) 4 None) (cursor 0 1 (Some 2) 3 None) two_lists_state
     = Inr (cursor 1 4 (Some 2) 4 None, cursor 0 1 (Some 4) 3 None, two_lists_exchanged)"
    by (simp add: exchange_def cursor_def two_lists_state_def two_lists_links_def
          two_lists_exchanged_def list_empty_def Let_def fun_eq_iff)
  have f: "last_of two_lists_exchanged 1 = Some 2" "prev (links two_lists_exchanged 2) = Some 4"
    "next (links two_lists_exchanged 4) = Some 3"
    by (simp_all add: two_lists_exchanged_def)
  have "\<not> wf_list two_lists_exchanged 1 xs" for xs
  proof
    assume w: "wf_list two_lists_exchanged 1 xs"
    with f(1) have ne: "xs \<noteq> []" and l: "last xs = 2" and d: "dll (links two_lists_exchanged) xs"
      by (auto simp: wf_list_def split: if_splits)
    from ne l have "2 \<in> set xs" using last_in_set by metis
    from dll_prev_next [OF d this] f show False by auto
  qed
  with a e show ?thesis by blast
qed

section \<open>Sorting\<close>

lemma total_order_by_id: "total_order by_id"
  by (auto simp: total_order_def by_id_def)

lemma total_order_by_tens: "total_order by_tens"
  by (auto simp: total_order_def by_tens_def)

text \<open>
  C6. On a well-formed list of fewer than \<open>2^31\<close> nodes and for a comparator that is a
  total order, \<open>sort\<close> returns; afterwards the list holds the same nodes, each once, and
  every adjacent pair \<open>(a, b)\<close> in forward order has \<open>comparator a b \<le> 0\<close>.
\<close>

theorem sort_correct:
  "wf_list s l xs \<Longrightarrow> length xs < 2 ^ 31 \<Longrightarrow> total_order comparator \<Longrightarrow>
   \<exists>s'. sort_list comparator l s = Some (Inr s') \<and>
        wf_list s' l (qsort comparator xs) \<and> mset (qsort comparator xs) = mset xs \<and>
        successively (\<lambda>a b. comparator a b \<le> 0) (qsort comparator xs)"
  using sort_list_wf [of s l xs comparator] successively_qsort [of comparator xs] by auto

text \<open>Scenario A: sorting \<open>[D, B, A, C]\<close> by identifier yields \<open>[A, B, C, D]\<close>.\<close>

theorem sort_correct_witness:
  "wf_list dbac_state 0 [4, 2, 1, 3] \<and> total_order by_id \<and>
   (\<exists>s'. sort_list by_id 0 dbac_state = Some (Inr s') \<and> wf_list s' 0 [1, 2, 3, 4])"
proof -
  have w: "wf_list dbac_state 0 [4, 2, 1, 3]"
    by (simp add: wf_list_def dll_def dbac_state_def dbac_links_def)
  have q: "qsort by_id [4, 2, 1, 3] = [1, 2, 3, 4]"
    by (simp add: qsort_def by_id_def)
  from sort_correct [OF w _ total_order_by_id] q w total_order_by_id show ?thesis by auto
qed

text \<open>
  C9. \<open>sort\<close> on an empty list does nothing: it returns without an error, whether
  \<open>malloc\<close> gave a block for the zero-size request or a null pointer, the store is as it
  was, so the list is still empty, and the comparator has not been called.
\<close>

theorem sort_empty_list:
  "list_empty l s \<Longrightarrow>
   sort_traced allocated comparator l s = Some (Inr (s, [])) \<and>
   sort_list comparator l s = Some (Inr s)"
  by (simp add: sort_traced_empty sort_empty)

theorem sort_empty_list_witness:
  "list_empty 0 empty_state \<and>
   sort_traced False by_id 0 empty_state = Some (Inr (empty_state, [])) \<and>
   sort_traced True by_id 0 empty_state = Some (Inr (empty_state, [])) \<and>
   sort_list by_id 0 empty_state = Some (Inr empty_state)"
proof -
  have e: "list_empty 0 empty_state" by (simp add: list_empty_def empty_state_def)
  from sort_empty_list [OF e, of False by_id] sort_empty_list [OF e, of True by_id] e
  show ?thesis by blast
qed

section \<open>Ordered insertion\<close>

text \<open>
  C5. Starting from an empty list, let \<open>add_sorted\<close> insert any sequence \<open>ps\<close> of distinct
  nodes under a comparator that is a total order. Every call returns, and the list then
  holds the nodes \<open>ps\<close> with \<open>comparator a b \<le> 0\<close> for every adjacent pair. One more
  insertion puts the new node behind every node that does not exceed it (those that compare
  equal among them) and before every node that strictly exceeds it, and the list is still
  ordered.
\<close>

theorem add_sorted_ordered:
  "total_order comparator \<Longrightarrow> list_empty l s \<Longrightarrow> distinct (ps @ [new_link]) \<Longrightarrow>
   \<exists>s1 xs. add_sorted_all comparator l ps s = Some (Inr s1) \<and> wf_list s1 l xs \<and>
     mset xs = mset ps \<and> successively (\<lambda>a b. comparator a b \<le> 0) xs \<and>
     (\<exists>s2 ys zs. add_sorted comparator l new_link s1 = Some (Inr s2) \<and> xs = ys @ zs \<and>
        wf_list s2 l (ys @ new_link # zs) \<and>
        successively (\<lambda>a b. comparator a b \<le> 0) (ys @ new_link # zs) \<and>
        (\<forall>e \<in> set ys. comparator e new_link \<le> 0) \<and> (\<forall>e \<in> set zs. 0 < comparator e new_link))"
proof -
  assume t: "total_order comparator" and e: "list_empty l s" and d: "distinct (ps @ [new_link])"
  from e have w: "wf_list s l []" by (simp add: wf_list_def list_empty_def)
  from d have "distinct ps" "set ps \<inter> set [] = {}" by auto
  from add_sorted_all_wf [OF t w _ this] obtain s1 xs where
    a: "add_sorted_all comparator l ps s = Some (Inr s1)" "wf_list s1 l xs" "mset xs = mset ps"
       "successively (\<lambda>a b. comparator a b \<le> 0) xs" by auto
  from a(3) d have "new_link \<notin> set xs" by (metis distinct_append disjoint_iff list.set_intros(1) mset_eq_setD)
  from add_sorted_sorted [OF t a(2,4) this] a show ?thesis by blast
qed

theorem add_sorted_ordered_witness:
  "total_order by_tens \<and> list_empty 0 empty_state \<and> distinct ([25, 11, 31] @ [12 :: addr]) \<and>
   (\<exists>s1 xs. add_sorted_all by_tens 0 [25, 11, 31] empty_state = Some (Inr s1) \<and> wf_list s1 0 xs \<and>
     mset xs = mset [25, 11, 31] \<and> successively (\<lambda>a b. by_tens a b \<le> 0) xs \<and>
     (\<exists>s2 ys zs. add_sorted by_tens 0 12 s1 = Some (Inr s2) \<and> xs = ys @ zs \<and>
        wf_list s2 0 (ys @ 12 # zs) \<and>
        successively (\<lambda>a b. by_tens a b \<le> 0) (ys @ 12 # zs) \<and>
        (\<forall>e \<in> set ys. by_tens e 12 \<le> 0) \<and> (\<forall>e \<in> set zs. 0 < by_tens e 12)))"
proof -
  have e: "list_empty 0 empty_state" by (simp add: list_empty_def empty_state_def)
  have d: "distinct ([25, 11, 31] @ [12::nat])" by simp
  from add_sorted_ordered [OF total_order_by_tens e d] total_order_by_tens e d show ?thesis
    by blast
qed

section \<open>Sublist extraction\<close>

text \<open>
  C2. On a well-formed list of \<open>N\<close> nodes, with this cursor on position \<open>i\<close> and the other
  on position \<open>j\<close>, \<open>i \<le> j\<close>, \<open>extract_sublist\<close> returns the node at \<open>j\<close> as the tail of a
  ring of its own, made of the nodes \<open>i..j\<close> in their order; the list keeps the other
  nodes in their order, and \<open>length\<close> counts \<open>N - (j - i + 1)\<close> of them. The nodes kept
  before \<open>i\<close>, the extracted ones and the nodes kept after them are the original sequence.
  When the range is the whole list, the list is empty afterwards and \<open>current\<close>, \<open>prev\<close>
  and \<open>next\<close> of both cursors are unset.
\<close>

theorem extract_sublist_partition:
  "wf_list s l xs \<Longrightarrow> cursor_at this l xs i \<Longrightarrow> cursor_at other l xs j \<Longrightarrow> i \<le> j \<Longrightarrow>
   length xs < 2 ^ 31 \<Longrightarrow>
   (let remaining = take i xs @ drop (Suc j) xs; extracted = take (Suc j - i) (drop i xs)
    in \<exists>this' other' s'.
         extract_sublist this other s = Some (Inr (xs ! j, this', other', s')) \<and>
         wf_list s' l remaining \<and>
         length_list l s' = Some (Inr (int (length xs) - int (j - i + 1))) \<and>
         dll (links s') extracted \<and> last extracted = xs ! j \<and> length extracted = j - i + 1 \<and>
         set extracted \<inter> set remaining = {} \<and>
         take i remaining @ extracted @ drop i remaining = xs \<and>
         (i = 0 \<and> j = length xs - 1 \<longrightarrow>
            list_empty l s' \<and>
            current this' = None \<and> it_prev this' = None \<and> it_next this' = None \<and>
            current other' = None \<and> it_prev other' = None \<and> it_next other' = None))"
proof -
  assume w: "wf_list s l xs" and ct: "cursor_at this l xs i" and co: "cursor_at other l xs j"
    and ij: "i \<le> j" and b: "length xs < 2 ^ 31"
  let ?rem = "take i xs @ drop (Suc j) xs" and ?ext = "take (Suc j - i) (drop i xs)"
  from co have j: "j < length xs" and ne: "xs \<noteq> []" by (auto simp: cursor_at_def)
  from wf_list_nonempty [OF w ne] have dist: "distinct xs" by simp
  note sp = split3 [OF ij j]
  from extract_sublist_wf [OF w ct co ij] obtain this' other' s' where
    e: "extract_sublist this other s = Some (Inr (xs ! j, this', other', s'))"
       "wf_list s' l ?rem" "dll (links s') ?ext" "current this' = None" "current other' = None"
       "if ?rem = [] then it_prev this' = None \<and> it_next this' = None \<and>
                          it_prev other' = None \<and> it_next other' = None
        else it_prev this' = it_prev this \<and> it_next this' = it_next other \<and>
             it_prev other' = it_prev this \<and> it_next other' = it_next other"
    by blast
  have lr: "length ?rem = length xs - (j - i + 1)" using ij j by auto
  then have "length ?rem < 2 ^ 31" using b by simp
  from length_list_wf [OF e(2) this] lr ij j
  have len: "length_list l s' = Some (Inr (int (length xs) - int (j - i + 1)))"
    by (simp add: of_nat_diff)
  have disj: "set ?ext \<inter> set ?rem = {}"
    using dist sp(1) by (metis (no_types, lifting) Int_Un_distrib Un_empty distinct_append inf_commute set_append)
  have cat: "take i ?rem @ ?ext @ drop i ?rem = xs"
    using sp(1) ij j by (simp add: min_def)
  have whole: "i = 0 \<and> j = length xs - 1 \<longrightarrow> ?rem = []" using ne by auto
  have "list_empty l s'" if "?rem = []" using e(2) that by (simp add: wf_list_empty_iff)
  with e(4-6) whole have wh: "i = 0 \<and> j = length xs - 1 \<longrightarrow>
            list_empty l s' \<and>
            current this' = None \<and> it_prev this' = None \<and> it_next this' = None \<and>
            current other' = None \<and> it_prev other' = None \<and> it_next other' = None"
    by auto
  show ?thesis unfolding Let_def
    using e(1-3) len disj cat wh sp(4,5) by blast
qed

text \<open>Scenario B: from \<open>[A, B, C, D]\<close> the range \<open>B..C\<close> leaves \<open>[A, D]\<close> and the ring \<open>[B, C]\<close>.\<close>

theorem extract_sublist_partition_witness:
  "wf_list abcd_state 0 [1, 2, 3, 4] \<and>
   cursor_at (cursor 0 1 (Some 2) 3 None) 0 [1, 2, 3, 4] 1 \<and>
   cursor_at (cursor 0 2 (Some 3) 4 None) 0 [1, 2, 3, 4] 2 \<and>
   (\<exists>this' other' s'.
      extract_sublist (cursor 0 1 (Some 2) 3 None) (cursor 0 2 (Some 3) 4 None) abcd_state
        = Some (Inr (3, this', other', s')) \<and>
      wf_list s' 0 [1, 4] \<and> length_list 0 s' = Some (Inr 2) \<and> dll (links s') [2, 3])"
proof -
  have w: "wf_list abcd_state 0 [1, 2, 3, 4]"
    by (simp add: wf_list_def dll_def abcd_state_def abcd_links_def)
  have c1: "cursor_at (cursor 0 1 (Some 2) 3 None) 0 [1, 2, 3, 4] 1"
    and c2: "cursor_at (cursor 0 2 (Some 3) 4 None) 0 [1, 2, 3, 4] 2"
    by (simp_all add: cursor_at_def cursor_def)
  from extract_sublist_partition [OF w c1 c2] w c1 c2 show ?thesis
    by (auto simp: Let_def)
qed

section \<open>Clearing a list\<close>

text \<open>
  C7. Let a list be built from the empty list by appending the distinct nodes \<open>ps\<close>, and
  let the zapper leave the \<open>next\<close> pointer of every other node and the \<open>last\<close> of the list
  alone. Then \<open>internal_clear\<close> returns, and its result is the zapper applied to the
  nodes \<open>ps\<close> one after the other, head first, once each, starting from the store in which
  the list is already empty and the circle is broken. Afterwards the list is empty and
  its length is 0.
\<close>

theorem clear_after_appends:
  "list_empty l s \<Longrightarrow> it_list it = Some l \<Longrightarrow> distinct ps \<Longrightarrow>
   \<forall>p s a. a \<noteq> p \<longrightarrow> next (links (zapper p s) a) = next (links s a) \<Longrightarrow>
   \<forall>p s. last_of (zapper p s) l = last_of s l \<Longrightarrow>
   \<exists>it' s1 s2.
     add_all_to_end it s ps = Inr (it', s1) \<and> wf_list s1 l ps \<and> world s1 = world s \<and>
     internal_clear zapper l s1 = Some s2 \<and>
     s2 = foldl (\<lambda>s p. zapper p s)
            (if ps = [] then s1
             else s1\<lparr>links := (links s1)(last ps := (links s1 (last ps))\<lparr>next := None\<rparr>),
                     last_of := (last_of s1)(l := None)\<rparr>) ps \<and>
     list_empty l s2 \<and> length_list l s2 = Some (Inr 0)"
proof -
  assume e: "list_empty l s" and it: "it_list it = Some l" and d: "distinct ps"
    and z1: "\<forall>p s a. a \<noteq> p \<longrightarrow> next (links (zapper p s) a) = next (links s a)"
    and z2: "\<forall>p s. last_of (zapper p s) l = last_of s l"
  from e have w: "wf_list s l []" by (simp add: wf_list_def list_empty_def)
  from add_all_to_end_wf [OF w d _ it] obtain it' s1 where
    a: "add_all_to_end it s ps = Inr (it', s1)" "wf_list s1 l ps" "world s1 = world s" by auto
  let ?d = "if ps = [] then s1
            else s1\<lparr>links := (links s1)(last ps := (links s1 (last ps))\<lparr>next := None\<rparr>),
                    last_of := (last_of s1)(l := None)\<rparr>"
  let ?s2 = "foldl (\<lambda>s p. zapper p s) ?d ps"
  from internal_clear_wf [OF a(2) z1] have c: "internal_clear zapper l s1 = Some ?s2" .
  have "last_of ?d l = None" using a(2) by (auto simp: wf_list_def)
  with foldl_zapper_last_of [OF z2, of ?d ps] have "list_empty l ?s2" by (simp add: list_empty_def)
  with a c length_list_empty [of l ?s2] show ?thesis by blast
qed

text \<open>
  Three appends, then \<open>clear\<close> with the logging zapper: three calls, for the nodes in
  their order, and each call finds the list empty.
\<close>

theorem clear_after_appends_witness:
  "list_empty 0 empty_state \<and> distinct [1, 2, 3 :: addr] \<and>
   (\<exists>it' s1 s2.
      add_all_to_end (set_to_list 0 empty_state) empty_state [1, 2, 3] = Inr (it', s1) \<and>
      internal_clear (logging_zapper 0) 0 s1 = Some s2 \<and>
      world s2 = [(1, True), (2, True), (3, True)] \<and>
      list_empty 0 s2 \<and> length_list 0 s2 = Some (Inr 0))"
proof -
  have e: "list_empty 0 empty_state" by (simp add: list_empty_def empty_state_def)
  have i: "it_list (set_to_list 0 empty_state) = Some 0" by simp
  have d: "distinct [1, 2, 3 :: addr]" by simp
  have z1: "\<forall>p s a. a \<noteq> p \<longrightarrow> next (links (logging_zapper 0 p s) a) = next (links s a)"
    and z2: "\<forall>p s. last_of (logging_zapper 0 p s) 0 = last_of s 0"
    by (simp_all add: logging_zapper_def)
  from clear_after_appends [OF e i d z1 z2] obtain it' s1 s2 where
    r: "add_all_to_end (set_to_list 0 empty_state) empty_state [1, 2, 3] = Inr (it', s1)"
       "world s1 = world empty_state"
       "internal_clear (logging_zapper 0) 0 s1 = Some s2"
       "s2 = foldl (\<lambda>s p. logging_zapper 0 p s)
            (if [1, 2, 3 :: addr] = [] then s1
             else s1\<lparr>links := (links s1)(last [1, 2, 3] := (links s1 (last [1, 2, 3]))\<lparr>next := None\<rparr>),
                     last_of := (last_of s1)(0 := None)\<rparr>) [1, 2, 3]"
       "list_empty 0 s2" "length_list 0 s2 = Some (Inr 0)" by blast
  from r(2,4) have "world s2 = [(1, True), (2, True), (3, True)]"
    by (simp add: logging_zapper_def list_empty_def empty_state_def)
  with e d r show ?thesis by blast
qed

end
